theory Spec2Isabelle
  imports Main "HOL-Library.Sublist"
begin

section \<open>Shell-pattern matching of fnmatch.py\<close>

text \<open>
  The module translates a shell pattern into the text of a regular expression
  (\<open>translate\<close>), hands that text to the host's regular-expression engine
  (\<open>_compile_pattern\<close>) and asks the compiled matcher about names
  (\<open>fnmatchcase\<close>, \<open>fnmatch\<close>, \<open>filter\<close>).  Python strings are modelled as
  \<open>string\<close>, with the 256 characters that the module's byte variants map one to
  one to bytes; the \<open>bytes\<close> branches of \<open>_compile_pattern\<close> and \<open>_re_escape\<close>,
  which convert to and from such strings, are not modelled.  An exception is a value
  of type \<open>error\<close> on the left of a sum.  The module's names are kept without their
  leading underscore; \<open>filter\<close> is \<open>filter_names\<close>.
\<close>

subsection \<open>Characters and errors\<close>

abbreviation BSL :: char where "BSL \<equiv> CHR 0x5C"

abbreviation NEWLINE :: char where "NEWLINE \<equiv> CHR 0x0A"

datatype error = IndexError | ReError

subsection \<open>The host: platform switches read by the module\<close>

text \<open>
  \<open>os.path\<close> is either \<open>posixpath\<close>, whose \<open>normcase\<close> is the identity (the
  source's comment in \<open>filter\<close>: "normcase on posix is NOP"), or another path
  module with its own \<open>normcase\<close>.  \<open>uefi_micropython\<close> is the test
  \<open>sys.platform == 'uefi' and sys.implementation.name == 'micropython'\<close>.
  \<open>strict_ranges\<close> says whether the imported engine rejects a character range
  whose upper bound is below its lower bound (CPython's \<open>re\<close> does).
\<close>

datatype path_module = Posixpath | Otherpath "string \<Rightarrow> string"

record host =
  uefi_micropython :: bool
  os_path :: path_module
  strict_ranges :: bool

fun normcase :: "path_module \<Rightarrow> string \<Rightarrow> string" where
  "normcase Posixpath s = s"
| "normcase (Otherpath f) s = f s"

subsection \<open>Escaping one literal character\<close>

text \<open>The bytes of \<open>b'()[]{}?*+-|^$\\.&~# \t\n\r\v\f'\<close>, in the source's order.\<close>

definition special_bytes :: string where
  "special_bytes =
     ''()[]{}?*+-|^$'' @ [BSL] @ ''.&~# '' @ [CHR 0x09, CHR 0x0A, CHR 0x0D, CHR 0x0B, CHR 0x0C]"

text \<open>\<open>_re_special_chars_map = {i: '\\' + chr(i) for i in b'...'}\<close>\<close>

definition re_special_chars_map :: "nat \<rightharpoonup> string" where
  "re_special_chars_map = map_of (map (\<lambda>i. (i, [BSL, char_of i])) (map of_char special_bytes))"

text \<open>\<open>p.replace(c, r)\<close> for a one-character \<open>c\<close>.\<close>

definition replace_char :: "string \<Rightarrow> char \<Rightarrow> string \<Rightarrow> string" where
  "replace_char p c r = concat (map (\<lambda>x. if x = c then r else [x]) p)"

text \<open>
  \<open>_re_translate(p, chmap)\<close>: the loop over the characters of \<open>p\<close> returns at the
  first one found in \<open>chmap\<close>, replacing every occurrence of that character.
\<close>

fun re_translate_loop :: "string \<Rightarrow> string \<Rightarrow> (nat \<rightharpoonup> string) \<Rightarrow> string" where
  "re_translate_loop p [] chmap = p"
| "re_translate_loop p (c # cs) chmap =
     (case chmap (of_char c) of
        Some r \<Rightarrow> replace_char p c r
      | None \<Rightarrow> re_translate_loop p cs chmap)"

definition re_translate :: "string \<Rightarrow> (nat \<rightharpoonup> string) \<Rightarrow> string" where
  "re_translate p chmap = re_translate_loop p p chmap"

text \<open>\<open>_re_escape(pattern)\<close>, the \<open>str\<close> branch (\<open>translate\<close> passes one character).\<close>

definition re_escape :: "string \<Rightarrow> string" where
  "re_escape pattern = re_translate pattern re_special_chars_map"

text \<open>
  Modelled from the spec: \<open>re.escape\<close> of the imported engine (here
  \<open>engine_escape\<close>) is not code of this module.  Section 4.2 of the specification
  gives its contract: a character of the escape set (the same set as
  \<open>special_bytes\<close>) gets a backslash in front, every other character passes
  through unchanged.
\<close>

definition engine_escape :: "string \<Rightarrow> string" where
  "engine_escape s = concat (map (\<lambda>c. if c \<in> set special_bytes then [BSL, c] else [c]) s)"

subsection \<open>translate\<close>

text \<open>\<open>while j < n and pat[j] != ']': j = j+1\<close>\<close>

function scan_close :: "string \<Rightarrow> nat \<Rightarrow> nat" where
  "scan_close pat j =
     (if j < length pat \<and> pat ! j \<noteq> CHR '']'' then scan_close pat (j + 1) else j)"
  by pat_completeness auto
termination
  by (relation "measure (\<lambda>(pat, j). length pat - j)") auto

text \<open>Lines 116 to 122: the value of \<open>j\<close> after the two \<open>if\<close>s and the inner loop.\<close>

definition bracket_end :: "string \<Rightarrow> nat \<Rightarrow> nat" where
  "bracket_end pat i =
     (let j = i;
          j = (if j < length pat \<and> pat ! j = CHR ''!'' then j + 1 else j);
          j = (if j < length pat \<and> pat ! j = CHR '']'' then j + 1 else j)
      in scan_close pat j)"

text \<open>The slice \<open>pat[i:j]\<close> for \<open>0 \<le> i\<close>, \<open>0 \<le> j\<close> (empty when \<open>j \<le> i\<close>).\<close>

definition slice :: "string \<Rightarrow> nat \<Rightarrow> nat \<Rightarrow> string" where
  "slice pat i j = take (j - i) (drop i pat)"

text \<open>
  Lines 126 to 131 without the index update: the backslashes of the group are
  doubled, then \<open>stuff[0]\<close> is read, which raises \<open>IndexError\<close> on an empty string.
\<close>

definition bracket_stuff :: "string \<Rightarrow> error + string" where
  "bracket_stuff raw =
     (let stuff = replace_char raw BSL [BSL, BSL] in
      case stuff of
        [] \<Rightarrow> Inl IndexError
      | s0 # rest \<Rightarrow>
          Inr (if s0 = CHR ''!'' then CHR ''^'' # rest
               else if s0 = CHR ''^'' then BSL # stuff
               else stuff))"

definition escape_char :: "host \<Rightarrow> char \<Rightarrow> string" where
  "escape_char h c = (if uefi_micropython h then re_escape [c] else engine_escape [c])"

function translate_loop :: "host \<Rightarrow> string \<Rightarrow> nat \<Rightarrow> string \<Rightarrow> error + string" where
  "translate_loop h pat i res =
     (if i < length pat then
        (if pat ! i = CHR ''*'' then translate_loop h pat (i + 1) (res @ ''.*'')
         else if pat ! i = CHR ''?'' then translate_loop h pat (i + 1) (res @ ''.'')
         else if pat ! i = CHR ''['' then
           (if bracket_end pat (i + 1) \<ge> length pat
            then translate_loop h pat (i + 1) (res @ [BSL, CHR ''[''])
            else (case bracket_stuff (slice pat (i + 1) (bracket_end pat (i + 1))) of
                    Inl e \<Rightarrow> Inl e
                  | Inr stuff \<Rightarrow>
                      translate_loop h pat (bracket_end pat (i + 1) + 1)
                        (res @ ''['' @ stuff @ '']'')))
         else translate_loop h pat (i + 1) (res @ escape_char h (pat ! i)))
      else Inr res)"
  by pat_completeness auto

lemma scan_close_ge: "j \<le> scan_close pat j"
proof (induction pat j rule: scan_close.induct)
  case (1 pat j)
  show ?case
  proof (cases "j < length pat \<and> pat ! j \<noteq> CHR '']''")
    case True
    with "1.IH" have "j + 1 \<le> scan_close pat (j + 1)" by blast
    moreover from True have "scan_close pat j = scan_close pat (j + 1)" by simp
    ultimately show ?thesis by simp
  next
    case False
    then show ?thesis by simp
  qed
qed

lemma bracket_end_ge: "i \<le> bracket_end pat i"
proof -
  have "\<And>k. i \<le> k \<Longrightarrow> i \<le> scan_close pat k"
    using scan_close_ge le_trans by blast
  then show ?thesis by (simp add: bracket_end_def Let_def)
qed

termination translate_loop
proof (relation "measure (\<lambda>(h, pat, i, res). length pat - i)")
  fix h :: host and pat :: string and i :: nat and res x2 :: string
  assume "i < length pat" and "\<not> length pat \<le> bracket_end pat (i + 1)"
  moreover have "i + 1 \<le> bracket_end pat (i + 1)" by (rule bracket_end_ge)
  ultimately show "((h, pat, bracket_end pat (i + 1) + 1, res @ ''['' @ x2 @ '']''),
                    (h, pat, i, res)) \<in> measure (\<lambda>(h, pat, i, res). length pat - i)"
    by simp
qed auto

text \<open>The result of the loop, and the returned text \<open>'(?ms)' + res + '\Z'\<close>.\<close>

definition translate :: "host \<Rightarrow> string \<Rightarrow> error + string" where
  "translate h pat =
     (case translate_loop h pat 0 [] of
        Inl e \<Rightarrow> Inl e
      | Inr res \<Rightarrow> Inr (''(?ms)'' @ res @ [BSL, CHR ''Z'']))"

subsection \<open>The regular-expression engine\<close>

text \<open>
  Modelled from the spec: the engine behind \<open>re.compile(res).match\<close> is an external
  collaborator of the module ("compile expression, then whole-string match", with
  multi-line and dot-matches-newline modes, section 6 of the specification).  The
  model covers the syntax \<open>translate\<close> can emit, read the way Python's \<open>re\<close> reads
  it: the inline flags \<open>(?ms)\<close> at the start, \<open>.\<close>, a postfix \<open>*\<close>, a backslash
  followed by a character that is not an ASCII letter or digit (that character,
  literally), \<open>\Z\<close> (the absolute end of the string), and a character set
  \<open>[...]\<close> with \<open>^\<close> negation, a literal \<open>]\<close> as first member and ranges
  \<open>lo-hi\<close>.  Everything else is refused with \<open>ReError\<close>.  Whether a range
  with \<open>hi\<close> below \<open>lo\<close> is an error or a range without members depends on the
  engine; the host's \<open>strict_ranges\<close> says which.
\<close>

datatype tok = Raw char | Esc char

datatype citem = CChar char | CRange char char

datatype atom = Dot bool | Lit char | CharSet bool "citem list"

datatype item = One atom | Star atom | EndAbs

definition is_alnum :: "char \<Rightarrow> bool" where
  "is_alnum c =
     (let n = (of_char c :: nat)
      in (48 \<le> n \<and> n \<le> 57) \<or> (65 \<le> n \<and> n \<le> 90) \<or> (97 \<le> n \<and> n \<le> 122))"

text \<open>The tokenizer: a backslash and the character after it are one token.\<close>

fun lex :: "string \<Rightarrow> tok list option" where
  "lex [] = Some []"
| "lex [c] = (if c = BSL then None else Some [Raw c])"
| "lex (c # d # cs) =
     (if c = BSL then map_option (Cons (Esc d)) (lex cs)
      else map_option (Cons (Raw c)) (lex (d # cs)))"

text \<open>The character a token stands for inside a set or as a literal.\<close>

fun tok_lit :: "tok \<Rightarrow> char option" where
  "tok_lit (Raw c) = Some c"
| "tok_lit (Esc d) = (if is_alnum d then None else Some d)"

definition add_citem :: "citem \<Rightarrow> (citem list \<times> tok list) option \<Rightarrow> (citem list \<times> tok list) option" where
  "add_citem x r = map_option (\<lambda>(xs, ts). (x # xs, ts)) r"

text \<open>
  The members of a set up to its closing \<open>]\<close>, and the tokens after it.  \<open>first\<close>
  holds while no member has been read: a \<open>]\<close> there is a member.  A range whose
  upper bound is below its lower bound is an error when \<open>strict\<close>, and a range
  with no member otherwise.
\<close>

fun parse_set :: "bool \<Rightarrow> bool \<Rightarrow> tok list \<Rightarrow> (citem list \<times> tok list) option" where
  "parse_set strict first [] = None"
| "parse_set strict first (t # ts) =
     (if t = Raw (CHR '']'') \<and> \<not> first then Some ([], ts)
      else
        (case tok_lit t of
           None \<Rightarrow> None
         | Some lo \<Rightarrow>
             (case ts of
                [] \<Rightarrow> None
              | t1 # ts1 \<Rightarrow>
                  if t1 = Raw (CHR ''-'') then
                    (case ts1 of
                       [] \<Rightarrow> None
                     | t2 # ts2 \<Rightarrow>
                         if t2 = Raw (CHR '']'') then Some ([CChar lo, CChar (CHR ''-'')], ts2)
                         else
                           (case tok_lit t2 of
                              None \<Rightarrow> None
                            | Some hi \<Rightarrow>
                                if strict \<and> (of_char hi :: nat) < of_char lo then None
                                else add_citem (CRange lo hi) (parse_set strict False ts2)))
                  else add_citem (CChar lo) (parse_set strict False (t1 # ts1)))))"

text \<open>A set after its \<open>[\<close>: an optional \<open>^\<close>, then the members.\<close>

definition parse_class :: "bool \<Rightarrow> tok list \<Rightarrow> (atom \<times> tok list) option" where
  "parse_class strict ts =
     (case ts of
        [] \<Rightarrow> None
      | t # ts' \<Rightarrow>
          if t = Raw (CHR ''^'')
          then map_option (\<lambda>(xs, r). (CharSet True xs, r)) (parse_set strict True ts')
          else map_option (\<lambda>(xs, r). (CharSet False xs, r)) (parse_set strict True ts))"

text \<open>An atom with its optional postfix \<open>*\<close>.\<close>

definition quant :: "atom \<Rightarrow> tok list \<Rightarrow> (item \<times> tok list) option" where
  "quant a ts =
     (case ts of
        [] \<Rightarrow> Some (One a, [])
      | t # r \<Rightarrow> if t = Raw (CHR ''*'') then Some (Star a, r) else Some (One a, ts))"

definition unsupported :: string where
  "unsupported = ''*+?{}()|^$''"

definition parse_item :: "bool \<Rightarrow> bool \<Rightarrow> tok list \<Rightarrow> (item \<times> tok list) option" where
  "parse_item strict dotall ts =
     (case ts of
        [] \<Rightarrow> None
      | Esc d # r \<Rightarrow>
          if d = CHR ''Z'' then Some (EndAbs, r)
          else if is_alnum d then None
          else quant (Lit d) r
      | Raw c # r \<Rightarrow>
          if c = CHR ''.'' then quant (Dot dotall) r
          else if c = CHR ''['' then
            (case parse_class strict r of
               None \<Rightarrow> None
             | Some (a, r') \<Rightarrow> quant a r')
          else if c \<in> set unsupported then None
          else quant (Lit c) r)"

function parse_items :: "bool \<Rightarrow> bool \<Rightarrow> tok list \<Rightarrow> item list option" where
  "parse_items strict dotall ts =
     (if ts = [] then Some []
      else
        (case parse_item strict dotall ts of
           None \<Rightarrow> None
         | Some (it, r) \<Rightarrow> map_option (Cons it) (parse_items strict dotall r)))"
  by pat_completeness auto

lemma add_citem_Some:
  "add_citem x p = Some (xs, r) \<longleftrightarrow> (\<exists>ys. p = Some (ys, r) \<and> xs = x # ys)"
  by (cases p) (auto simp: add_citem_def)

lemma parse_set_close: "\<not> first \<Longrightarrow> parse_set strict first (Raw (CHR '']'') # ts) = Some ([], ts)"
  by simp

lemma parse_set_single:
  assumes "tok_lit t = Some lo" and "first \<or> t \<noteq> Raw (CHR '']'')" and "t1 \<noteq> Raw (CHR ''-'')"
  shows "parse_set strict first (t # t1 # ts1) = add_citem (CChar lo) (parse_set strict False (t1 # ts1))"
  using assms by (subst parse_set.simps(2)) (auto simp del: parse_set.simps)

lemma parse_set_dash_close:
  assumes "tok_lit t = Some lo" and "first \<or> t \<noteq> Raw (CHR '']'')"
  shows "parse_set strict first (t # Raw (CHR ''-'') # Raw (CHR '']'') # ts2) =
         Some ([CChar lo, CChar (CHR ''-'')], ts2)"
  using assms by (subst parse_set.simps(2)) (auto simp del: parse_set.simps)

lemma parse_set_range:
  assumes "tok_lit t = Some lo" and "first \<or> t \<noteq> Raw (CHR '']'')"
    and "t2 \<noteq> Raw (CHR '']'')" and "tok_lit t2 = Some hi"
  shows "parse_set strict first (t # Raw (CHR ''-'') # t2 # ts2) =
         (if strict \<and> (of_char hi :: nat) < of_char lo then None
          else add_citem (CRange lo hi) (parse_set strict False ts2))"
  using assms by (subst parse_set.simps(2)) (auto simp del: parse_set.simps)

lemma parse_set_range_bad:
  assumes "tok_lit t = Some lo" and "first \<or> t \<noteq> Raw (CHR '']'')"
    and "t2 \<noteq> Raw (CHR '']'')" and "tok_lit t2 = None"
  shows "parse_set strict first (t # Raw (CHR ''-'') # t2 # ts2) = None"
  using assms by (subst parse_set.simps(2)) (auto simp del: parse_set.simps)

lemma parse_set_shorter:
  "parse_set strict first ts = Some (xs, r) \<Longrightarrow> length r < length ts"
proof (induction strict first ts arbitrary: xs r rule: parse_set.induct)
  case (1 strict first)
  then show ?case by simp
next
  case (2 strict first t ts)
  note prem = "2.prems"
  show ?case
  proof (cases "t = Raw (CHR '']'') \<and> \<not> first")
    case True
    with prem show ?thesis by simp
  next
    case nc: False
    from prem nc obtain lo where lo: "tok_lit t = Some lo"
      by (cases "tok_lit t") (simp_all del: tok_lit.simps)
    from prem nc lo obtain t1 ts1 where ts: "ts = t1 # ts1"
      by (cases ts) (simp_all del: tok_lit.simps)
    from nc have fst: "first \<or> t \<noteq> Raw (CHR '']'')" by blast
    show ?thesis
    proof (cases "t1 = Raw (CHR ''-'')")
      case False
      from prem have "add_citem (CChar lo) (parse_set strict False (t1 # ts1)) = Some (xs, r)"
        unfolding ts parse_set_single [OF lo fst False] .
      then obtain ys where "parse_set strict False (t1 # ts1) = Some (ys, r)"
        unfolding add_citem_Some by blast
      from "2.IH"(2) [OF nc lo ts False this] show ?thesis by (simp add: ts)
    next
      case dash: True
      from prem nc lo ts dash obtain t2 ts2 where ts1: "ts1 = t2 # ts2"
        by (cases ts1) (simp_all del: tok_lit.simps)
      show ?thesis
      proof (cases "t2 = Raw (CHR '']'')")
        case True
        from prem have "r = ts2"
          unfolding ts ts1 dash True parse_set_dash_close [OF lo fst] by simp
        then show ?thesis by (simp add: ts ts1)
      next
        case nclose: False
        from prem obtain hi where hi: "tok_lit t2 = Some hi"
          unfolding ts ts1 dash
          using parse_set_range_bad [OF lo fst nclose, of strict ts2]
          by (cases "tok_lit t2") simp_all
        from prem have eq: "(if strict \<and> (of_char hi :: nat) < of_char lo then None
              else add_citem (CRange lo hi) (parse_set strict False ts2)) = Some (xs, r)"
          unfolding ts ts1 dash parse_set_range [OF lo fst nclose hi] .
        then have ok: "\<not> (strict \<and> (of_char hi :: nat) < of_char lo)"
          by (auto split: if_splits)
        with eq have "add_citem (CRange lo hi) (parse_set strict False ts2) = Some (xs, r)"
          by (simp split: if_splits)
        then obtain ys where "parse_set strict False ts2 = Some (ys, r)"
          unfolding add_citem_Some by blast
        from "2.IH"(1) [OF nc lo ts dash ts1 nclose hi ok this] show ?thesis
          by (simp add: ts ts1)
      qed
    qed
  qed
qed

declare parse_set.simps(2) [simp del]

lemma parse_class_shorter:
  "parse_class strict ts = Some (a, r) \<Longrightarrow> length r < length ts"
  by (auto simp: parse_class_def split: list.splits if_splits dest!: parse_set_shorter)

lemma quant_shorter: "quant a ts = Some (it, r) \<Longrightarrow> length r \<le> length ts"
  by (auto simp: quant_def split: list.splits if_splits)

lemma parse_item_shorter:
  "parse_item strict dotall ts = Some (it, r) \<Longrightarrow> length r < length ts"
  by (auto simp: parse_item_def split: list.splits tok.splits if_splits option.splits
           dest!: parse_class_shorter quant_shorter)

termination parse_items
  by (relation "measure (\<lambda>(strict, dotall, ts). length ts)") (auto dest: parse_item_shorter)

text \<open>
  \<open>re.compile\<close>: the inline flags \<open>(?ms)\<close> switch \<open>.\<close> to match a newline too;
  without them \<open>.\<close> matches every character but a newline.
\<close>

definition re_compile :: "bool \<Rightarrow> string \<Rightarrow> error + item list" where
  "re_compile strict res =
     (let dotall = (take 5 res = ''(?ms)'');
          body = (if dotall then drop 5 res else res)
      in case lex body of
           None \<Rightarrow> Inl ReError
         | Some ts \<Rightarrow>
             (case parse_items strict dotall ts of
                None \<Rightarrow> Inl ReError
              | Some items \<Rightarrow> Inr items))"

fun citem_ok :: "citem \<Rightarrow> char \<Rightarrow> bool" where
  "citem_ok (CChar d) c = (c = d)"
| "citem_ok (CRange lo hi) c = ((of_char lo :: nat) \<le> of_char c \<and> (of_char c :: nat) \<le> of_char hi)"

fun atom_ok :: "atom \<Rightarrow> char \<Rightarrow> bool" where
  "atom_ok (Dot dotall) c = (dotall \<or> c \<noteq> NEWLINE)"
| "atom_ok (Lit d) c = (c = d)"
| "atom_ok (CharSet neg xs) c = (neg \<noteq> list_ex (\<lambda>x. citem_ok x c) xs)"

text \<open>
  The compiled pattern's \<open>match\<close>: does the expression match at the start of the
  string (not necessarily all of it)?  The result is whether a match object, rather
  than \<open>None\<close>, comes back.
\<close>

fun re_match :: "item list \<Rightarrow> string \<Rightarrow> bool" where
  "re_match [] s = True"
| "re_match (One a # r) [] = False"
| "re_match (One a # r) (c # cs) = (atom_ok a c \<and> re_match r cs)"
| "re_match (Star a # r) [] = re_match r []"
| "re_match (Star a # r) (c # cs) = ((atom_ok a c \<and> re_match (Star a # r) cs) \<or> re_match r (c # cs))"
| "re_match (EndAbs # r) s = (s = [] \<and> re_match r s)"

text \<open>
  A whole-string match: the expression matches from the start of the string to its
  absolute end.
\<close>

fun fullmatch :: "item list \<Rightarrow> string \<Rightarrow> bool" where
  "fullmatch [] s = (s = [])"
| "fullmatch (One a # r) [] = False"
| "fullmatch (One a # r) (c # cs) = (atom_ok a c \<and> fullmatch r cs)"
| "fullmatch (Star a # r) [] = fullmatch r []"
| "fullmatch (Star a # r) (c # cs) = ((atom_ok a c \<and> fullmatch (Star a # r) cs) \<or> fullmatch r (c # cs))"
| "fullmatch (EndAbs # r) s = (s = [] \<and> fullmatch r s)"

subsection \<open>The matching functions\<close>

text \<open>\<open>_compile_pattern(pat)\<close>, the \<open>str\<close> branch.\<close>

definition compile_pattern :: "host \<Rightarrow> string \<Rightarrow> error + item list" where
  "compile_pattern h pat =
     (case translate h pat of
        Inl e \<Rightarrow> Inl e
      | Inr res \<Rightarrow> re_compile (strict_ranges h) res)"

definition fnmatchcase :: "host \<Rightarrow> string \<Rightarrow> string \<Rightarrow> error + bool" where
  "fnmatchcase h name pat =
     (case compile_pattern h pat of
        Inl e \<Rightarrow> Inl e
      | Inr m \<Rightarrow> Inr (re_match m name))"

definition fnmatch :: "host \<Rightarrow> string \<Rightarrow> string \<Rightarrow> error + bool" where
  "fnmatch h name pat =
     fnmatchcase h (normcase (os_path h) name) (normcase (os_path h) pat)"

text \<open>The two loops of \<open>filter\<close>, appending to \<open>result\<close>.\<close>

fun filter_loop_posix :: "item list \<Rightarrow> string list \<Rightarrow> string list \<Rightarrow> string list" where
  "filter_loop_posix m [] result = result"
| "filter_loop_posix m (name # names) result =
     filter_loop_posix m names (if re_match m name then result @ [name] else result)"

fun filter_loop_other :: "path_module \<Rightarrow> item list \<Rightarrow> string list \<Rightarrow> string list \<Rightarrow> string list" where
  "filter_loop_other p m [] result = result"
| "filter_loop_other p m (name # names) result =
     filter_loop_other p m names
       (if re_match m (normcase p name) then result @ [name] else result)"

definition filter_names :: "host \<Rightarrow> string list \<Rightarrow> string \<Rightarrow> error + string list" where
  "filter_names h names pat =
     (case compile_pattern h (normcase (os_path h) pat) of
        Inl e \<Rightarrow> Inl e
      | Inr m \<Rightarrow>
          Inr (case os_path h of
                 Posixpath \<Rightarrow> filter_loop_posix m names []
               | Otherpath f \<Rightarrow> filter_loop_other (os_path h) m names []))"

subsection \<open>Auxiliary notions for the proofs\<close>

text \<open>The group content with every backslash doubled.\<close>

definition double_bs :: "string \<Rightarrow> string" where
  "double_bs s = replace_char s BSL [BSL, BSL]"

text \<open>
  Modelled from the spec: a case-folding \<open>normcase\<close> for a host with a
  case-insensitive convention ("it lowercases", section 4.4), used as an example of a
  path module other than \<open>posixpath\<close>.
\<close>

definition lower_char :: "char \<Rightarrow> char" where
  "lower_char c =
     (if (65::nat) \<le> of_char c \<and> (of_char c :: nat) \<le> 90 then char_of ((of_char c :: nat) + 32) else c)"

text \<open>
  The tokens the engine's tokenizer makes of the translator's output: of a group
  member (\<open>tokc\<close>), of an escaped ordinary character (\<open>esc_tok\<close>) and of the
  content of a group (\<open>stuff_toks\<close>).
\<close>

definition tokc :: "char \<Rightarrow> tok" where
  "tokc c = (if c = BSL then Esc BSL else Raw c)"

definition esc_tok :: "char \<Rightarrow> tok" where
  "esc_tok c = (if c \<in> set special_bytes then Esc c else Raw c)"

definition stuff_toks :: "string \<Rightarrow> tok list" where
  "stuff_toks raw =
     (case raw of
        [] \<Rightarrow> []
      | c # cs \<Rightarrow>
          if c = CHR ''!'' then Raw (CHR ''^'') # map tokc cs
          else if c = CHR ''^'' then Esc (CHR ''^'') # map tokc cs
          else map tokc (c # cs))"

text \<open>
  The contents of a group that the scan closes at the next \<open>]\<close>: not empty, and
  with no \<open>]\<close> after the optional leading \<open>!\<close> and the optional first-member
  \<open>]\<close>.
\<close>

definition group_ok :: "string \<Rightarrow> bool" where
  "group_ok raw =
     (case raw of
        [] \<Rightarrow> False
      | c # cs \<Rightarrow>
          if c = CHR ''!'' then cs \<noteq> [] \<and> CHR '']'' \<notin> set (tl cs)
          else CHR '']'' \<notin> set cs)"

text \<open>
  How many characters after a \<open>[\<close> the scan steps over before it looks for the
  closing \<open>]\<close>: the optional \<open>!\<close> and the optional first-member \<open>]\<close>.
\<close>

definition group_skip :: "string \<Rightarrow> nat" where
  "group_skip rest =
     (let a = (if rest \<noteq> [] \<and> hd rest = CHR ''!'' then 1 else 0)
      in if a < length rest \<and> rest ! a = CHR '']'' then a + 1 else a)"

text \<open>The characters with a meaning of their own in a pattern.\<close>

abbreviation wildcards :: "char set" where
  "wildcards \<equiv> {CHR ''*'', CHR ''?'', CHR ''[''}"

text \<open>
  A token list is accepted when the engine's parser gets through it, whatever
  parseable tokens follow (a postfix \<open>*\<close> right after it aside).
\<close>

definition accepted :: "bool \<Rightarrow> tok list \<Rightarrow> bool" where
  "accepted strict ts \<longleftrightarrow>
     (\<forall>rest. (rest = [] \<or> hd rest \<noteq> Raw (CHR ''*'')) \<longrightarrow>
        parse_items strict True rest \<noteq> None \<longrightarrow>
        parse_items strict True (ts @ rest) \<noteq> None)"

section \<open>Properties of the translation\<close>

subsection \<open>The scan for the closing bracket\<close>

declare translate_loop.simps [simp del]
declare scan_close.simps [simp del]

lemma scan_close_stop:
  "scan_close pat j < length pat \<Longrightarrow> pat ! scan_close pat j = CHR '']''"
proof (induction pat j rule: scan_close.induct)
  case (1 pat j)
  show ?case
  proof (cases "j < length pat \<and> pat ! j \<noteq> CHR '']''")
    case True
    then have eq: "scan_close pat j = scan_close pat (j + 1)"
      by (subst scan_close.simps) simp
    with "1.IH" [OF True] "1.prems" show ?thesis by simp
  next
    case False
    then have eq: "scan_close pat j = j"
      by (subst scan_close.simps) auto
    with "1.prems" False show ?thesis by auto
  qed
qed

lemma scan_close_step:
  "j < length pat \<Longrightarrow> pat ! j \<noteq> CHR '']'' \<Longrightarrow> scan_close pat j = scan_close pat (j + 1)"
  by (subst scan_close.simps) simp

lemma bracket_end_gt:
  assumes "bracket_end pat k < length pat"
  shows "k < bracket_end pat k"
proof -
  from assms bracket_end_ge [of k pat] have kn: "k < length pat" by simp
  have le: "\<And>j. k + 1 \<le> j \<Longrightarrow> k < scan_close pat j"
  proof -
    fix j assume "k + 1 \<le> j"
    moreover have "j \<le> scan_close pat j" by (rule scan_close_ge)
    ultimately show "k < scan_close pat j" by arith
  qed
  show ?thesis
  proof (cases "pat ! k = CHR ''!''")
    case True
    with kn le show ?thesis by (simp add: bracket_end_def Let_def)
  next
    case nb: False
    show ?thesis
    proof (cases "pat ! k = CHR '']''")
      case True
      with kn nb le show ?thesis by (simp add: bracket_end_def Let_def)
    next
      case False
      with kn nb have "bracket_end pat k = scan_close pat (k + 1)"
        by (simp add: bracket_end_def Let_def scan_close_step)
      with le show ?thesis by simp
    qed
  qed
qed

lemma bracket_end_close:
  "bracket_end pat k < length pat \<Longrightarrow> pat ! bracket_end pat k = CHR '']''"
  unfolding bracket_end_def Let_def by (rule scan_close_stop)

lemma slice_nonempty:
  "i < j \<Longrightarrow> j < length pat \<Longrightarrow> slice pat i j = pat ! i # slice pat (i + 1) j"
proof -
  assume ij: "i < j" and jn: "j < length pat"
  then have "drop i pat = pat ! i # drop (Suc i) pat"
    using Cons_nth_drop_Suc [of i pat] by simp
  moreover from ij have "j - i = Suc (j - Suc i)" by arith
  ultimately show ?thesis by (simp add: slice_def)
qed

lemma bracket_stuff_Cons:
  "bracket_stuff (c # cs) =
     Inr (if c = CHR ''!'' then CHR ''^'' # double_bs cs
          else if c = CHR ''^'' then BSL # CHR ''^'' # double_bs cs
          else double_bs (c # cs))"
  by (simp add: bracket_stuff_def double_bs_def replace_char_def)

lemma translate_loop_total: "\<exists>out. translate_loop h pat i res = Inr out"
proof (induction h pat i res rule: translate_loop.induct)
  case (1 h pat i res)
  show ?case
  proof (cases "i < length pat")
    case False
    then show ?thesis by (subst translate_loop.simps) simp
  next
    case lt: True
    show ?thesis
    proof (cases "pat ! i = CHR ''*''")
      case True
      with lt "1.IH"(1) show ?thesis by (subst translate_loop.simps) simp
    next
      case ns: False
      show ?thesis
      proof (cases "pat ! i = CHR ''?''")
        case True
        with lt ns "1.IH"(2) show ?thesis by (subst translate_loop.simps) simp
      next
        case nq: False
        show ?thesis
        proof (cases "pat ! i = CHR ''[''")
          case False
          with lt ns nq "1.IH"(5) show ?thesis by (subst translate_loop.simps) simp
        next
          case br: True
          show ?thesis
          proof (cases "length pat \<le> bracket_end pat (i + 1)")
            case True
            with lt ns nq br "1.IH"(3) show ?thesis by (subst translate_loop.simps) simp
          next
            case closed: False
            then have j: "bracket_end pat (i + 1) < length pat" by simp
            from bracket_end_gt [OF j] have "i + 1 < bracket_end pat (i + 1)" .
            from slice_nonempty [OF this j]
            obtain st where st: "bracket_stuff (slice pat (i + 1) (bracket_end pat (i + 1))) = Inr st"
              by (simp add: bracket_stuff_Cons)
            from "1.IH"(4) [OF lt ns nq br closed st] obtain out where
              "translate_loop h pat (bracket_end pat (i + 1) + 1) (res @ ''['' @ st @ '']'') = Inr out"
              by blast
            with lt ns nq br closed st show ?thesis
              by (subst translate_loop.simps) simp
          qed
        qed
      qed
    qed
  qed
qed

subsection \<open>Escaping\<close>

lemma map_of_keyed:
  "map_of (map (\<lambda>i. (i, f i)) ks) k = (if k \<in> set ks then Some (f k) else None)"
  by (induction ks) auto

lemma re_special_chars_map_char:
  "re_special_chars_map (of_char c) = (if c \<in> set special_bytes then Some [BSL, c] else None)"
proof -
  have "((of_char c :: nat) \<in> set (map of_char special_bytes)) = (c \<in> set special_bytes)"
    by auto
  then show ?thesis
    unfolding re_special_chars_map_def map_of_keyed by simp
qed

lemma re_escape_char:
  "re_escape [c] = (if c \<in> set special_bytes then [BSL, c] else [c])"
  by (simp add: re_escape_def re_translate_def re_special_chars_map_char replace_char_def)

lemma engine_escape_char:
  "engine_escape [c] = (if c \<in> set special_bytes then [BSL, c] else [c])"
  by (simp add: engine_escape_def)

lemma escape_char_eq [code]:
  "escape_char h c = (if c \<in> set special_bytes then [BSL, c] else [c])"
  by (simp add: escape_char_def re_escape_char engine_escape_char)

subsection \<open>Totality\<close>

lemma translate_total_aux: "\<exists>out. translate h pat = Inr out"
  using translate_loop_total [of h pat 0 "[]"] by (auto simp: translate_def)

subsection \<open>The wildcards\<close>

lemma compile_star: "compile_pattern h ''*'' = Inr [Star (Dot True), EndAbs]"
  by code_simp

lemma compile_question: "compile_pattern h ''?'' = Inr [One (Dot True), EndAbs]"
  by code_simp

lemma re_match_star_any: "re_match [Star (Dot True), EndAbs] s"
  by (induction s) simp_all

lemma re_match_one_any: "re_match [One (Dot True), EndAbs] s = (length s = 1)"
  by (cases s) auto

text \<open>
  Claim C4.  The expression for the pattern \<open>*\<close> matches every string, the empty
  one and strings with newlines included; the expression for \<open>?\<close> matches exactly
  the strings of one character, a sole newline included, and neither the empty string
  nor a string of two characters.
\<close>

theorem translate_star_question:
  "translate h ''*'' = Inr (''(?ms).*'' @ [BSL, CHR ''Z''])
   \<and> fnmatchcase h s ''*'' = Inr True
   \<and> fnmatchcase h [] ''*'' = Inr True
   \<and> fnmatchcase h (''a'' @ [NEWLINE] @ ''b'' @ [NEWLINE]) ''*'' = Inr True
   \<and> translate h ''?'' = Inr (''(?ms).'' @ [BSL, CHR ''Z''])
   \<and> fnmatchcase h s ''?'' = Inr (length s = 1)
   \<and> fnmatchcase h [NEWLINE] ''?'' = Inr True
   \<and> fnmatchcase h [] ''?'' = Inr False
   \<and> fnmatchcase h [a, b] ''?'' = Inr False"
proof -
  have star: "\<And>s. fnmatchcase h s ''*'' = Inr True"
    by (simp add: fnmatchcase_def compile_star re_match_star_any)
  have quest: "\<And>s. fnmatchcase h s ''?'' = Inr (length s = 1)"
    by (simp add: fnmatchcase_def compile_question re_match_one_any)
  have t1: "translate h ''*'' = Inr (''(?ms).*'' @ [BSL, CHR ''Z''])" by code_simp
  have t2: "translate h ''?'' = Inr (''(?ms).'' @ [BSL, CHR ''Z''])" by code_simp
  show ?thesis by (simp add: star quest t1 t2)
qed

text \<open>
  Claim C7.  \<open>translate\<close> is total: the scan is a terminating recursion on
  \<open>len(pat) - i\<close>, it returns a string for every pattern and from every scan state
  (no branch raises, \<open>stuff[0]\<close> included), and the index that the next iteration
  starts from is larger than \<open>i\<close> in both branches of the bracket handling.
\<close>

theorem translate_total:
  "(\<exists>out. translate h pat = Inr out)
   \<and> (\<exists>out. translate_loop h pat i res = Inr out)
   \<and> i < i + 1
   \<and> i < bracket_end pat (i + 1) + 1"
proof -
  have "i + 1 \<le> bracket_end pat (i + 1)" by (rule bracket_end_ge)
  then have "i < bracket_end pat (i + 1) + 1" by arith
  with translate_total_aux [of h pat] translate_loop_total [of h pat i res]
  show ?thesis by simp
qed

subsection \<open>Tokens of the translated expression\<close>

lemma lex_raw:
  "c \<noteq> BSL \<Longrightarrow> lex cs = Some ts \<Longrightarrow> lex (c # cs) = Some (Raw c # ts)"
  by (cases cs) simp_all

lemma lex_esc: "lex cs = Some ts \<Longrightarrow> lex (BSL # d # cs) = Some (Esc d # ts)"
  by simp

lemma lex_append:
  "lex a = Some ta \<Longrightarrow> lex b = Some tb \<Longrightarrow> lex (a @ b) = Some (ta @ tb)"
proof (induction a arbitrary: ta rule: lex.induct)
  case 1
  then show ?case by simp
next
  case (2 c)
  then have c: "c \<noteq> BSL" and ta: "ta = [Raw c]" by (auto split: if_splits)
  from lex_raw [OF c "2.prems"(2)] show ?case unfolding ta by simp
next
  case (3 c d cs)
  show ?case
  proof (cases "c = BSL")
    case True
    with "3.prems" obtain t where t: "lex cs = Some t" and ta: "ta = Esc d # t" by auto
    from "3.IH"(1) [OF True t "3.prems"(2)] have "lex (cs @ b) = Some (t @ tb)" .
    from lex_esc [OF this, of d] show ?thesis unfolding ta True by simp
  next
    case False
    with "3.prems" obtain t where t: "lex (d # cs) = Some t" and ta: "ta = Raw c # t" by auto
    from "3.IH"(2) [OF False t "3.prems"(2)] have "lex ((d # cs) @ b) = Some (t @ tb)" .
    from lex_raw [OF False this] show ?thesis unfolding ta by simp
  qed
qed

lemma double_bs_Cons:
  "double_bs (c # cs) = (if c = BSL then [BSL, BSL] else [c]) @ double_bs cs"
  by (simp add: double_bs_def replace_char_def)

lemma double_bs_Nil: "double_bs [] = []"
  by (simp add: double_bs_def replace_char_def)

lemma lex_double_bs:
  "lex rest = Some tr \<Longrightarrow> lex (double_bs s @ rest) = Some (map tokc s @ tr)"
proof (induction s)
  case Nil
  then show ?case by (simp add: double_bs_Nil)
next
  case (Cons c s)
  from Cons.IH [OF Cons.prems] have ih: "lex (double_bs s @ rest) = Some (map tokc s @ tr)" .
  show ?case
  proof (cases "c = BSL")
    case True
    from lex_esc [OF ih, of BSL] True show ?thesis
      by (simp add: double_bs_Cons tokc_def del: lex.simps)
  next
    case False
    from lex_raw [OF False ih] False show ?thesis
      by (simp add: double_bs_Cons tokc_def del: lex.simps)
  qed
qed

lemma lex_bracket_stuff:
  assumes "bracket_stuff raw = Inr st" and "lex rest = Some tr"
  shows "lex (st @ rest) = Some (stuff_toks raw @ tr)"
proof (cases raw)
  case Nil
  with assms show ?thesis by (simp add: bracket_stuff_def replace_char_def)
next
  case (Cons c cs)
  have bs: "CHR ''^'' \<noteq> BSL" by simp
  note lcs = lex_double_bs [OF assms(2), of cs]
  show ?thesis
  proof (cases "c = CHR ''!''")
    case True
    with assms Cons have st: "st = CHR ''^'' # double_bs cs" by (simp add: bracket_stuff_Cons)
    from lex_raw [OF bs lcs] show ?thesis unfolding st Cons True
      by (simp add: stuff_toks_def del: lex.simps)
  next
    case nb: False
    show ?thesis
    proof (cases "c = CHR ''^''")
      case True
      with assms Cons have st: "st = BSL # CHR ''^'' # double_bs cs"
        by (simp add: bracket_stuff_Cons)
      from lex_esc [OF lcs, of "CHR ''^''"] show ?thesis unfolding st Cons True
        by (simp add: stuff_toks_def del: lex.simps)
    next
      case False
      with assms Cons nb have st: "st = double_bs (c # cs)" by (simp add: bracket_stuff_Cons)
      from lex_double_bs [OF assms(2), of "c # cs"] show ?thesis unfolding st Cons
        using nb False by (simp add: stuff_toks_def del: lex.simps)
    qed
  qed
qed

lemma special_not_alnum: "c \<in> set special_bytes \<Longrightarrow> \<not> is_alnum c"
  by (auto simp: special_bytes_def is_alnum_def)

lemma bsl_special: "BSL \<in> set special_bytes"
  by (simp add: special_bytes_def)

lemma lex_escape_char:
  assumes "lex rest = Some tr"
  shows "lex (escape_char h c @ rest) = Some (esc_tok c # tr)"
proof (cases "c \<in> set special_bytes")
  case True
  with lex_esc [OF assms, of c] show ?thesis
    by (simp add: escape_char_eq esc_tok_def del: lex.simps)
next
  case False
  with bsl_special have "c \<noteq> BSL" by auto
  from lex_raw [OF this assms] False show ?thesis
    by (simp add: escape_char_eq esc_tok_def del: lex.simps)
qed

text \<open>The tokens of the loop's result: every prefix built by the loop lexes.\<close>

lemma translate_loop_lex:
  "lex res = Some tr \<Longrightarrow> translate_loop h pat i res = Inr out \<Longrightarrow> \<exists>ts. lex out = Some ts"
proof (induction h pat i res arbitrary: tr rule: translate_loop.induct)
  case (1 h pat i res)
  note res = "1.prems"(1) and out = "1.prems"(2)
  show ?case
  proof (cases "i < length pat")
    case False
    with out have "out = res" by (subst (asm) translate_loop.simps) simp
    with res show ?thesis by simp
  next
    case lt: True
    show ?thesis
    proof (cases "pat ! i = CHR ''*''")
      case True
      have l: "lex (res @ ''.*'') = Some (tr @ [Raw (CHR ''.''), Raw (CHR ''*'')])"
        by (rule lex_append [OF res]) simp
      from out lt True have "translate_loop h pat (i + 1) (res @ ''.*'') = Inr out"
        by (subst (asm) translate_loop.simps) simp
      from "1.IH"(1) [OF lt True l this] show ?thesis .
    next
      case ns: False
      show ?thesis
      proof (cases "pat ! i = CHR ''?''")
        case True
        have l: "lex (res @ ''.'') = Some (tr @ [Raw (CHR ''.'')])"
          by (rule lex_append [OF res]) simp
        from out lt ns True have "translate_loop h pat (i + 1) (res @ ''.'') = Inr out"
          by (subst (asm) translate_loop.simps) simp
        from "1.IH"(2) [OF lt ns True l this] show ?thesis .
      next
        case nq: False
        show ?thesis
        proof (cases "pat ! i = CHR ''[''")
          case False
          have "lex (escape_char h (pat ! i) @ []) = Some (esc_tok (pat ! i) # [])"
            by (rule lex_escape_char) simp
          then have "lex (escape_char h (pat ! i)) = Some [esc_tok (pat ! i)]" by simp
          from lex_append [OF res this]
          have l: "lex (res @ escape_char h (pat ! i)) = Some (tr @ [esc_tok (pat ! i)])" .
          from out lt ns nq False
          have "translate_loop h pat (i + 1) (res @ escape_char h (pat ! i)) = Inr out"
            by (subst (asm) translate_loop.simps) simp
          from "1.IH"(5) [OF lt ns nq False l this] show ?thesis .
        next
          case br: True
          show ?thesis
          proof (cases "length pat \<le> bracket_end pat (i + 1)")
            case True
            have l: "lex (res @ [BSL, CHR ''['']) = Some (tr @ [Esc (CHR ''['')])"
              by (rule lex_append [OF res]) simp
            from out lt ns nq br True
            have "translate_loop h pat (i + 1) (res @ [BSL, CHR ''['']) = Inr out"
              by (subst (asm) translate_loop.simps) simp
            from "1.IH"(3) [OF lt ns nq br True l this] show ?thesis .
          next
            case closed: False
            let ?raw = "slice pat (i + 1) (bracket_end pat (i + 1))"
            from out lt ns nq br closed obtain st where st: "bracket_stuff ?raw = Inr st"
              and o: "translate_loop h pat (bracket_end pat (i + 1) + 1) (res @ ''['' @ st @ '']'') = Inr out"
              by (subst (asm) translate_loop.simps) (auto split: sum.splits)
            have "lex (st @ '']'') = Some (stuff_toks ?raw @ [Raw (CHR '']'')])"
              by (rule lex_bracket_stuff [OF st]) simp
            then have "lex (''['' @ st @ '']'') = Some (Raw (CHR ''['') # stuff_toks ?raw @ [Raw (CHR '']'')])"
              using lex_raw [of "CHR ''[''" "st @ '']''"] by simp
            from lex_append [OF res this]
            have l: "lex (res @ ''['' @ st @ '']'') =
                Some (tr @ Raw (CHR ''['') # stuff_toks ?raw @ [Raw (CHR '']'')])" .
            from "1.IH"(4) [OF lt ns nq br closed st l o] show ?thesis .
          qed
        qed
      qed
    qed
  qed
qed

subsection \<open>The end anchor\<close>

declare parse_items.simps [simp del]

lemma parse_items_Nil: "parse_items strict dotall [] = Some []"
  by (subst parse_items.simps) simp

lemma parse_items_Cons:
  "parse_items strict dotall (t # ts) =
     (case parse_item strict dotall (t # ts) of
        None \<Rightarrow> None
      | Some (it, r) \<Rightarrow> map_option (Cons it) (parse_items strict dotall r))"
  by (subst parse_items.simps) simp

abbreviation ENDZ :: tok where "ENDZ \<equiv> Esc (CHR ''Z'')"

lemma tok_lit_endz: "tok_lit ENDZ = None"
  by (simp add: is_alnum_def)

lemma parse_set_endz_only: "parse_set strict first [ENDZ] = None"
  by (simp add: parse_set.simps(2) is_alnum_def)

lemma parse_set_endz:
  "parse_set strict first (ts @ [ENDZ]) =
     map_option (\<lambda>(xs, r). (xs, r @ [ENDZ])) (parse_set strict first ts)"
proof (induction strict first ts rule: parse_set.induct)
  case (1 strict first)
  show ?case by (simp add: parse_set_endz_only)
next
  case (2 strict first t ts)
  show ?case
  proof (cases "t = Raw (CHR '']'') \<and> \<not> first")
    case True
    then show ?thesis by (simp add: parse_set_close)
  next
    case nc: False
    then have fst: "first \<or> t \<noteq> Raw (CHR '']'')" by blast
    show ?thesis
    proof (cases "tok_lit t")
      case None
      with nc show ?thesis by (simp add: parse_set.simps(2))
    next
      case (Some lo)
      show ?thesis
      proof (cases ts)
        case Nil
        have "parse_set strict first (t # [ENDZ]) = None"
          unfolding parse_set_single [OF Some fst, of ENDZ strict "[]", simplified]
          by (simp add: parse_set_endz_only add_citem_def)
        moreover have "parse_set strict first [t] = None"
          using Some nc by (simp add: parse_set.simps(2))
        ultimately show ?thesis by (simp add: Nil)
      next
        case (Cons t1 ts1)
        show ?thesis
        proof (cases "t1 = Raw (CHR ''-'')")
          case False
          from "2.IH"(2) [OF nc Some Cons False]
          have ih: "parse_set strict False ((t1 # ts1) @ [ENDZ]) =
              map_option (\<lambda>(xs, r). (xs, r @ [ENDZ])) (parse_set strict False (t1 # ts1))" .
          have "parse_set strict first (t # t1 # (ts1 @ [ENDZ])) =
                add_citem (CChar lo) (parse_set strict False (t1 # (ts1 @ [ENDZ])))"
            by (rule parse_set_single [OF Some fst False])
          moreover have "parse_set strict first (t # t1 # ts1) =
                add_citem (CChar lo) (parse_set strict False (t1 # ts1))"
            by (rule parse_set_single [OF Some fst False])
          ultimately show ?thesis using ih
            by (cases "parse_set strict False (t1 # ts1)") (auto simp: Cons add_citem_def)
        next
          case dash: True
          show ?thesis
          proof (cases ts1)
            case Nil
            have "parse_set strict first (t # Raw (CHR ''-'') # ENDZ # []) = None"
              by (rule parse_set_range_bad [OF Some fst]) (simp_all add: is_alnum_def)
            moreover have "parse_set strict first [t, Raw (CHR ''-'')] = None"
              using Some nc by (simp add: parse_set.simps(2))
            ultimately show ?thesis by (simp add: Cons dash Nil)
          next
            case c2: (Cons t2 ts2)
            show ?thesis
            proof (cases "t2 = Raw (CHR '']'')")
              case True
              then show ?thesis
                by (simp add: Cons dash c2 parse_set_dash_close [OF Some fst])
            next
              case nclose: False
              show ?thesis
              proof (cases "tok_lit t2")
                case None
                then show ?thesis
                  by (simp add: Cons dash c2 parse_set_range_bad [OF Some fst nclose None])
              next
                case hi: (Some hi)
                show ?thesis
                proof (cases "strict \<and> (of_char hi :: nat) < of_char lo")
                  case True
                  then show ?thesis
                    by (simp add: Cons dash c2 parse_set_range [OF Some fst nclose hi])
                next
                  case False
                  from "2.IH"(1) [OF nc Some Cons dash c2 nclose hi False]
                  have ih: "parse_set strict False (ts2 @ [ENDZ]) =
                     map_option (\<lambda>(xs, r). (xs, r @ [ENDZ])) (parse_set strict False ts2)" .
                  from False ih show ?thesis
                    by (cases "parse_set strict False ts2")
                       (auto simp: Cons dash c2 parse_set_range [OF Some fst nclose hi] add_citem_def)
                qed
              qed
            qed
          qed
        qed
      qed
    qed
  qed
qed

lemma parse_class_endz:
  "parse_class strict (ts @ [ENDZ]) =
     map_option (\<lambda>(a, r). (a, r @ [ENDZ])) (parse_class strict ts)"
proof (cases ts)
  case Nil
  then show ?thesis by (simp add: parse_class_def parse_set_endz_only)
next
  case (Cons t ts')
  show ?thesis
  proof (cases "t = Raw (CHR ''^'')")
    case True
    then show ?thesis
      by (cases "parse_set strict True ts'")
         (auto simp: Cons parse_class_def parse_set_endz)
  next
    case False
    have "parse_set strict True (t # ts' @ [ENDZ]) =
        map_option (\<lambda>(xs, r). (xs, r @ [ENDZ])) (parse_set strict True (t # ts'))"
      using parse_set_endz [of strict True "t # ts'"] by simp
    with False show ?thesis
      by (cases "parse_set strict True (t # ts')") (auto simp: Cons parse_class_def)
  qed
qed

lemma quant_endz:
  "quant a (ts @ [ENDZ]) = map_option (\<lambda>(it, r). (it, r @ [ENDZ])) (quant a ts)"
  by (cases ts) (auto simp: quant_def)

lemma parse_item_endz:
  "parse_item strict dotall ((t # ts) @ [ENDZ]) =
     map_option (\<lambda>(it, r). (it, r @ [ENDZ])) (parse_item strict dotall (t # ts))"
proof (cases t)
  case (Esc d)
  then show ?thesis by (simp add: parse_item_def quant_endz)
next
  case (Raw c)
  show ?thesis
  proof (cases "c = CHR ''[''")
    case False
    with Raw show ?thesis by (simp add: parse_item_def quant_endz)
  next
    case True
    show ?thesis
    proof (cases "parse_class strict ts")
      case None
      with Raw True show ?thesis by (simp add: parse_item_def parse_class_endz)
    next
      case (Some p)
      obtain a r where p: "p = (a, r)" by (cases p)
      with Raw True Some show ?thesis
        by (simp add: parse_item_def parse_class_endz quant_endz)
    qed
  qed
qed

lemma parse_items_endz:
  "parse_items strict dotall (ts @ [ENDZ]) =
     map_option (\<lambda>xs. xs @ [EndAbs]) (parse_items strict dotall ts)"
proof (induction strict dotall ts rule: parse_items.induct)
  case (1 strict dotall ts)
  show ?case
  proof (cases ts)
    case Nil
    show ?thesis
      by (simp add: Nil parse_items_Nil parse_items_Cons parse_item_def)
  next
    case (Cons t ts')
    then have ne: "ts \<noteq> []" by simp
    show ?thesis
    proof (cases "parse_item strict dotall ts")
      case None
      with parse_item_endz [of strict dotall t ts'] show ?thesis
        by (simp add: Cons parse_items_Cons)
    next
      case (Some p)
      obtain it r where p: "p = (it, r)" by (cases p)
      from "1.IH" [OF ne Some [unfolded p]] refl
      have ih: "parse_items strict dotall (r @ [ENDZ]) =
           map_option (\<lambda>xs. xs @ [EndAbs]) (parse_items strict dotall r)" by simp
      from parse_item_endz [of strict dotall t ts'] Some p
      have "parse_item strict dotall (t # ts' @ [ENDZ]) = Some (it, r @ [ENDZ])"
        by (simp add: Cons)
      with Some p ih show ?thesis
        by (cases "parse_items strict dotall r") (simp_all add: Cons parse_items_Cons)
    qed
  qed
qed

lemma re_match_endabs: "re_match (xs @ [EndAbs]) s = fullmatch xs s"
  by (induction xs s rule: fullmatch.induct) simp_all

subsection \<open>Bracket groups\<close>

lemma scan_close_here:
  "j < length pat \<Longrightarrow> pat ! j = CHR '']'' \<Longrightarrow> scan_close pat j = j"
  by (subst scan_close.simps) simp

lemma scan_close_end: "length pat \<le> j \<Longrightarrow> scan_close pat j = j"
  by (subst scan_close.simps) simp

lemma scan_close_append:
  "CHR '']'' \<notin> set mid \<Longrightarrow>
   scan_close (pre @ mid @ CHR '']'' # post) (length pre) = length pre + length mid"
proof (induction mid arbitrary: pre)
  case Nil
  show ?case by (simp add: scan_close_here)
next
  case (Cons c mid)
  then have c: "c \<noteq> CHR '']''" and m: "CHR '']'' \<notin> set mid" by auto
  have "scan_close (pre @ (c # mid) @ CHR '']'' # post) (length pre) =
        scan_close (pre @ (c # mid) @ CHR '']'' # post) (length pre + 1)"
    using c by (intro scan_close_step) simp_all
  also have "\<dots> = scan_close ((pre @ [c]) @ mid @ CHR '']'' # post) (length (pre @ [c]))"
    by simp
  also have "\<dots> = length (pre @ [c]) + length mid"
    by (rule Cons.IH [OF m])
  finally show ?case by simp
qed

lemma scan_close_append_open:
  "CHR '']'' \<notin> set mid \<Longrightarrow> scan_close (pre @ mid) (length pre) = length pre + length mid"
proof (induction mid arbitrary: pre)
  case Nil
  show ?case by (simp add: scan_close_end)
next
  case (Cons c mid)
  then have c: "c \<noteq> CHR '']''" and m: "CHR '']'' \<notin> set mid" by auto
  have "scan_close (pre @ c # mid) (length pre) = scan_close (pre @ c # mid) (length pre + 1)"
    using c by (intro scan_close_step) simp_all
  also have "\<dots> = scan_close ((pre @ [c]) @ mid) (length (pre @ [c]))"
    by simp
  also have "\<dots> = length (pre @ [c]) + length mid"
    by (rule Cons.IH [OF m])
  finally show ?case by simp
qed

lemma bracket_end_group:
  assumes "group_ok stuff"
  shows "bracket_end (pre @ stuff @ CHR '']'' # post) (length pre) = length pre + length stuff"
proof -
  from assms obtain c cs where stuff: "stuff = c # cs" by (cases stuff) (auto simp: group_ok_def)
  let ?pat = "pre @ stuff @ CHR '']'' # post"
  have p0: "?pat ! length pre = c" by (simp add: stuff)
  have len: "length pre < length ?pat" by simp
  show ?thesis
  proof (cases "c = CHR ''!''")
    case True
    with assms stuff obtain d ds where cs: "cs = d # ds" and ds: "CHR '']'' \<notin> set ds"
      by (cases cs) (auto simp: group_ok_def)
    have p1: "?pat ! (length pre + 1) = d" by (simp add: stuff cs nth_append)
    have len1: "length pre + 1 < length ?pat" by (simp add: stuff)
    show ?thesis
    proof (cases "d = CHR '']''")
      case d: True
      have "scan_close ((pre @ [c, d]) @ ds @ CHR '']'' # post) (length (pre @ [c, d])) =
            length (pre @ [c, d]) + length ds"
        by (rule scan_close_append [OF ds])
      then have "scan_close ?pat (length pre + 2) = length pre + length stuff"
        by (simp add: stuff cs)
      with True d p0 p1 len len1 show ?thesis
        by (simp add: bracket_end_def Let_def)
    next
      case False
      with ds have "CHR '']'' \<notin> set (d # ds)" by simp
      from scan_close_append [OF this, of "pre @ [c]" post]
      have "scan_close ?pat (length pre + 1) = length pre + length stuff"
        by (simp add: stuff cs)
      with True False p0 p1 len len1 show ?thesis
        by (simp add: bracket_end_def Let_def)
    qed
  next
    case nb: False
    with assms stuff have cs: "CHR '']'' \<notin> set cs" by (simp add: group_ok_def)
    have len1: "length pre + 1 < length ?pat \<or> cs = []" by (simp add: stuff)
    show ?thesis
    proof (cases "c = CHR '']''")
      case True
      from scan_close_append [OF cs, of "pre @ [c]" post]
      have "scan_close ?pat (length pre + 1) = length pre + length stuff"
        by (simp add: stuff)
      with True nb p0 len show ?thesis
        by (simp add: bracket_end_def Let_def)
    next
      case False
      with cs have "CHR '']'' \<notin> set (c # cs)" by simp
      from scan_close_append [OF this, of pre post]
      have "scan_close ?pat (length pre) = length pre + length stuff"
        by (simp add: stuff)
      with False nb p0 len show ?thesis
        by (simp add: bracket_end_def Let_def)
    qed
  qed
qed

lemma slice_append_mid: "slice (pre @ mid @ post) (length pre) (length pre + length mid) = mid"
  by (simp add: slice_def)

text \<open>The iterations of the loop, one lemma for each branch.\<close>

lemma translate_loop_star:
  assumes "i < length pat" and "pat ! i = CHR ''*''"
  shows "translate_loop h pat i res = translate_loop h pat (i + 1) (res @ ''.*'')"
  using assms by (subst translate_loop.simps) simp

lemma translate_loop_question:
  assumes "i < length pat" and "pat ! i = CHR ''?''"
  shows "translate_loop h pat i res = translate_loop h pat (i + 1) (res @ ''.'')"
  using assms by (subst translate_loop.simps) simp

lemma translate_loop_literal:
  assumes "i < length pat" and "pat ! i \<noteq> CHR ''*''" and "pat ! i \<noteq> CHR ''?''"
    and "pat ! i \<noteq> CHR ''[''"
  shows "translate_loop h pat i res = translate_loop h pat (i + 1) (res @ escape_char h (pat ! i))"
  using assms by (subst translate_loop.simps) simp

lemma translate_loop_open:
  assumes "i < length pat" and "pat ! i = CHR ''[''" and "length pat \<le> bracket_end pat (i + 1)"
  shows "translate_loop h pat i res = translate_loop h pat (i + 1) (res @ [BSL, CHR ''['']) "
  using assms by (subst translate_loop.simps) simp

lemma translate_loop_closed:
  assumes "i < length pat" and "pat ! i = CHR ''[''" and "bracket_end pat (i + 1) = j"
    and "j < length pat" and "bracket_stuff (slice pat (i + 1) j) = Inr st"
  shows "translate_loop h pat i res = translate_loop h pat (j + 1) (res @ ''['' @ st @ '']'')"
  using assms by (subst translate_loop.simps) auto

lemma translate_loop_group:
  assumes "group_ok stuff"
  shows "\<exists>st. bracket_stuff stuff = Inr st \<and>
     translate_loop h (pre @ ''['' @ stuff @ '']'' @ post) (length pre) res =
     translate_loop h (pre @ ''['' @ stuff @ '']'' @ post) (length pre + length stuff + 2)
       (res @ ''['' @ st @ '']'')"
proof -
  let ?pat = "pre @ ''['' @ stuff @ '']'' @ post"
  from assms obtain c cs where stuff: "stuff = c # cs" by (cases stuff) (auto simp: group_ok_def)
  then obtain st where st: "bracket_stuff stuff = Inr st" by (simp add: bracket_stuff_Cons)
  have be: "bracket_end ?pat (length pre + 1) = length pre + 1 + length stuff"
    using bracket_end_group [OF assms, of "pre @ ''[''" post] by simp
  have sl: "slice ?pat (length pre + 1) (length pre + 1 + length stuff) = stuff"
    using slice_append_mid [of "pre @ ''[''" stuff "'']'' @ post"] by simp
  have p0: "?pat ! length pre = CHR ''[''" by simp
  have i: "length pre < length ?pat" by simp
  have j: "length pre + 1 + length stuff < length ?pat" by simp
  have "translate_loop h ?pat (length pre) res =
     translate_loop h ?pat (length pre + 1 + length stuff + 1) (res @ ''['' @ st @ '']'')"
    by (rule translate_loop_closed [OF i p0 be j]) (simp only: sl st)
  moreover have "length pre + 1 + length stuff + 1 = length pre + length stuff + 2" by simp
  ultimately show ?thesis using st by (simp only:) blast
qed

lemma translate_loop_end: "length pat \<le> i \<Longrightarrow> translate_loop h pat i res = Inr res"
  by (subst translate_loop.simps) simp

lemma translate_group_only:
  assumes "group_ok stuff"
  shows "\<exists>st. bracket_stuff stuff = Inr st \<and>
     translate h (''['' @ stuff @ '']'') = Inr (''(?ms)['' @ st @ '']'' @ [BSL, CHR ''Z''])"
proof -
  from translate_loop_group [OF assms, of h "[]" "[]" "[]"] obtain st where
    st: "bracket_stuff stuff = Inr st" and
    tl: "translate_loop h (''['' @ stuff @ '']'') 0 [] =
         translate_loop h (''['' @ stuff @ '']'') (length stuff + 2) (''['' @ st @ '']'')"
    by auto
  have "translate_loop h (''['' @ stuff @ '']'') (length stuff + 2) (''['' @ st @ '']'') =
        Inr (''['' @ st @ '']'')"
    by (rule translate_loop_end) simp
  with tl st show ?thesis by (simp add: translate_def)
qed

subsection \<open>Character sets\<close>

lemma tok_lit_tokc: "tok_lit (tokc c) = Some c"
  by (simp add: tokc_def is_alnum_def)

lemma tokc_eq_Raw: "tokc c = Raw d \<longleftrightarrow> c = d \<and> c \<noteq> BSL"
  by (auto simp: tokc_def)

lemma Raw_eq_tokc: "Raw d = tokc c \<longleftrightarrow> c = d \<and> c \<noteq> BSL"
  by (auto simp: tokc_def)

lemma parse_set_plain:
  assumes "\<forall>t\<in>set ts. tok_lit t \<noteq> None \<and> t \<noteq> Raw (CHR ''-'')"
    and "Raw (CHR '']'') \<notin> set (if first then tl ts else ts)"
    and "first \<longrightarrow> ts \<noteq> []"
  shows "parse_set strict first (ts @ Raw (CHR '']'') # rest) =
         Some (map (\<lambda>t. CChar (the (tok_lit t))) ts, rest)"
  using assms
proof (induction ts arbitrary: first)
  case Nil
  then show ?case by (simp add: parse_set_close)
next
  case (Cons t ts)
  from Cons.prems(1) obtain lo where lo: "tok_lit t = Some lo" by auto
  from Cons.prems(2) have fst: "first \<or> t \<noteq> Raw (CHR '']'')" by (cases first) auto
  from Cons.prems(2) have nc: "Raw (CHR '']'') \<notin> set ts" by (cases first) auto
  obtain t1 ts1 where nxt: "ts @ Raw (CHR '']'') # rest = t1 # ts1"
    by (cases ts) auto
  with Cons.prems(1) have t1: "t1 \<noteq> Raw (CHR ''-'')" by (cases ts) auto
  have ih: "parse_set strict False (ts @ Raw (CHR '']'') # rest) =
        Some (map (\<lambda>t. CChar (the (tok_lit t))) ts, rest)"
    using Cons.prems(1) nc by (intro Cons.IH) simp_all
  have "parse_set strict first (t # t1 # ts1) =
        add_citem (CChar lo) (parse_set strict False (t1 # ts1))"
    by (rule parse_set_single [OF lo fst t1])
  with ih show ?case by (simp add: nxt [symmetric] lo add_citem_def)
qed

lemma parse_set_tokc:
  assumes "CHR ''-'' \<notin> set s" and "CHR '']'' \<notin> set (if first then tl s else s)"
    and "first \<longrightarrow> s \<noteq> []"
  shows "parse_set strict first (map tokc s @ Raw (CHR '']'') # rest) = Some (map CChar s, rest)"
proof -
  have a: "\<forall>t\<in>set (map tokc s). tok_lit t \<noteq> None \<and> t \<noteq> Raw (CHR ''-'')"
    using assms(1) by (auto simp: tok_lit_tokc tokc_eq_Raw)
  have b: "Raw (CHR '']'') \<notin> set (if first then tl (map tokc s) else map tokc s)"
    using assms(2) by (cases first) (auto simp: tokc_eq_Raw Raw_eq_tokc map_tl [symmetric])
  have c: "first \<longrightarrow> map tokc s \<noteq> []" using assms(3) by simp
  have "map (\<lambda>t. CChar (the (tok_lit t))) (map tokc s) = map CChar s"
    by (simp add: tok_lit_tokc comp_def)
  with parse_set_plain [OF a b c, of strict rest] show ?thesis by simp
qed

lemma group_toks_caret:
  assumes "CHR ''-'' \<notin> set s" and "CHR '']'' \<notin> set s"
  shows "parse_set strict True (Esc (CHR ''^'') # map tokc s @ Raw (CHR '']'') # rest) =
         Some (map CChar (CHR ''^'' # s), rest)"
proof -
  have a: "\<forall>t\<in>set (Esc (CHR ''^'') # map tokc s). tok_lit t \<noteq> None \<and> t \<noteq> Raw (CHR ''-'')"
    using assms(1) by (auto simp: tok_lit_tokc tokc_eq_Raw is_alnum_def)
  have b: "Raw (CHR '']'') \<notin> set (if True then tl (Esc (CHR ''^'') # map tokc s)
              else Esc (CHR ''^'') # map tokc s)"
    using assms(2) by (auto simp: tokc_eq_Raw Raw_eq_tokc)
  have "map (\<lambda>t. CChar (the (tok_lit t))) (Esc (CHR ''^'') # map tokc s) = map CChar (CHR ''^'' # s)"
    by (simp add: tok_lit_tokc comp_def is_alnum_def)
  with parse_set_plain [OF a b, of strict rest] show ?thesis by simp
qed

text \<open>The compiled form of a pattern that is one group listing single characters.\<close>

lemma parse_class_listed:
  assumes "group_ok stuff" and "hd stuff \<noteq> CHR ''!''" and "CHR ''-'' \<notin> set stuff"
  shows "parse_class strict (stuff_toks stuff @ Raw (CHR '']'') # rest) =
         Some (CharSet False (map CChar stuff), rest)"
proof -
  from assms(1) obtain c cs where stuff: "stuff = c # cs" by (cases stuff) (auto simp: group_ok_def)
  with assms have c: "c \<noteq> CHR ''!''" and cs: "CHR '']'' \<notin> set cs"
    and d: "CHR ''-'' \<notin> set (c # cs)"
    by (auto simp: group_ok_def)
  show ?thesis
  proof (cases "c = CHR ''^''")
    case True
    from d have "CHR ''-'' \<notin> set cs" by simp
    from group_toks_caret [OF this cs, of strict rest] True show ?thesis
      by (simp add: stuff stuff_toks_def parse_class_def)
  next
    case False
    have ne: "tokc c \<noteq> Raw (CHR ''^'')" using False by (simp add: tokc_eq_Raw)
    have "parse_set strict True (map tokc (c # cs) @ Raw (CHR '']'') # rest) =
          Some (map CChar (c # cs), rest)"
      by (rule parse_set_tokc [OF d]) (use cs in simp_all)
    with c False ne show ?thesis
      by (simp add: stuff stuff_toks_def parse_class_def)
  qed
qed

lemma parse_class_negated:
  assumes "s \<noteq> []" and "CHR '']'' \<notin> set (tl s)" and "CHR ''-'' \<notin> set s"
  shows "parse_class strict (stuff_toks (CHR ''!'' # s) @ Raw (CHR '']'') # rest) =
         Some (CharSet True (map CChar s), rest)"
proof -
  have "parse_set strict True (map tokc s @ Raw (CHR '']'') # rest) = Some (map CChar s, rest)"
    by (rule parse_set_tokc [OF assms(3)]) (use assms in simp_all)
  then show ?thesis by (simp add: stuff_toks_def parse_class_def)
qed

lemma re_compile_translated:
  assumes "lex (res @ [BSL, CHR ''Z'']) = Some ts"
  shows "re_compile strict (''(?ms)'' @ res @ [BSL, CHR ''Z'']) =
         (case parse_items strict True ts of None \<Rightarrow> Inl ReError | Some items \<Rightarrow> Inr items)"
  using assms by (simp add: re_compile_def)

lemma compile_group:
  assumes "group_ok stuff"
    and "\<And>rest. parse_class (strict_ranges h) (stuff_toks stuff @ Raw (CHR '']'') # rest) =
           Some (a, rest)"
  shows "compile_pattern h (''['' @ stuff @ '']'') = Inr [One a, EndAbs]"
proof -
  from translate_group_only [OF assms(1), of h] obtain st where
    st: "bracket_stuff stuff = Inr st" and
    tr: "translate h (''['' @ stuff @ '']'') = Inr (''(?ms)['' @ st @ '']'' @ [BSL, CHR ''Z''])"
    by blast
  have "lex (st @ '']'' @ [BSL, CHR ''Z'']) = Some (stuff_toks stuff @ [Raw (CHR '']''), ENDZ])"
    by (rule lex_bracket_stuff [OF st]) simp
  then have lx: "lex ((''['' @ st @ '']'') @ [BSL, CHR ''Z'']) =
      Some (Raw (CHR ''['') # stuff_toks stuff @ [Raw (CHR '']''), ENDZ])"
    using lex_raw [of "CHR ''[''" "st @ '']'' @ [BSL, CHR ''Z'']"] by simp
  have pz: "parse_items (strict_ranges h) True [ENDZ] = Some [EndAbs]"
    by (simp add: parse_items_Cons parse_items_Nil parse_item_def)
  have pi: "parse_item (strict_ranges h) True
        (Raw (CHR ''['') # stuff_toks stuff @ [Raw (CHR '']''), ENDZ]) = Some (One a, [ENDZ])"
    using assms(2) [of "[ENDZ]"] by (simp add: parse_item_def quant_def)
  have "parse_items (strict_ranges h) True
        (Raw (CHR ''['') # stuff_toks stuff @ [Raw (CHR '']''), ENDZ]) = Some [One a, EndAbs]"
    by (subst parse_items_Cons) (simp add: pi pz)
  with re_compile_translated [OF lx, of "strict_ranges h"] tr show ?thesis
    by (simp add: compile_pattern_def)
qed

lemma re_match_one: "re_match [One a, EndAbs] name = (\<exists>c. name = [c] \<and> atom_ok a c)"
proof (cases name)
  case Nil
  then show ?thesis by simp
next
  case (Cons c cs)
  then show ?thesis by (cases cs) auto
qed

lemma list_ex_CChar: "list_ex (\<lambda>x. citem_ok x c) (map CChar s) = (c \<in> set s)"
  by (induction s) auto

subsection \<open>Groups that list or exclude characters\<close>

lemma fnmatchcase_listed:
  assumes "group_ok stuff" and "hd stuff \<noteq> CHR ''!''" and "CHR ''-'' \<notin> set stuff"
  shows "fnmatchcase h name (''['' @ stuff @ '']'') = Inr (\<exists>c\<in>set stuff. name = [c])"
proof -
  have "compile_pattern h (''['' @ stuff @ '']'') = Inr [One (CharSet False (map CChar stuff)), EndAbs]"
    by (rule compile_group [OF assms(1)]) (rule parse_class_listed [OF assms])
  then show ?thesis
    by (auto simp: fnmatchcase_def re_match_one list_ex_CChar)
qed

lemma group_ok_negated:
  "s \<noteq> [] \<Longrightarrow> CHR '']'' \<notin> set (tl s) \<Longrightarrow> group_ok (CHR ''!'' # s)"
  by (simp add: group_ok_def)

lemma fnmatchcase_negated:
  assumes "s \<noteq> []" and "CHR '']'' \<notin> set (tl s)" and "CHR ''-'' \<notin> set s"
  shows "fnmatchcase h name (''[!'' @ s @ '']'') = Inr (\<exists>c. name = [c] \<and> c \<notin> set s)"
proof -
  have "compile_pattern h (''['' @ (CHR ''!'' # s) @ '']'') =
        Inr [One (CharSet True (map CChar s)), EndAbs]"
    by (rule compile_group [OF group_ok_negated [OF assms(1,2)]])
       (rule parse_class_negated [OF assms])
  then show ?thesis
    by (auto simp: fnmatchcase_def re_match_one list_ex_CChar)
qed

lemma replace_char_concat:
  "replace_char s BSL [BSL, BSL] = concat (map (\<lambda>c. if c = BSL then [BSL, BSL] else [c]) s)"
  by (simp add: replace_char_def)

lemma lex_group:
  assumes "bracket_stuff stuff = Inr st" and "lex rest = Some tr"
  shows "lex (''['' @ st @ '']'' @ rest) =
         Some (Raw (CHR ''['') # stuff_toks stuff @ Raw (CHR '']'') # tr)"
proof -
  have "lex ('']'' @ rest) = Some (Raw (CHR '']'') # tr)"
    using lex_raw [of "CHR '']''" rest tr] assms(2) by simp
  from lex_bracket_stuff [OF assms(1) this]
  have "lex (st @ '']'' @ rest) = Some (stuff_toks stuff @ Raw (CHR '']'') # tr)" .
  then show ?thesis
    using lex_raw [of "CHR ''[''" "st @ '']'' @ rest"] by simp
qed

lemma bracket_stuff_doubled:
  "bracket_stuff (c # cs) =
     Inr ((if c = CHR ''!'' then ''^''
           else if c = CHR ''^'' then [BSL, CHR ''^'']
           else if c = BSL then [BSL, BSL]
           else [c])
          @ concat (map (\<lambda>x. if x = BSL then [BSL, BSL] else [x]) cs))"
  by (simp add: bracket_stuff_Cons double_bs_def replace_char_def)

text \<open>
  Claim C1, corrected.  As stated for every closed group the claim fails: the class
  for \<open>[a-c]\<close> matches \<open>b\<close>, which is not listed, and not the listed \<open>-\<close>, and
  the class for \<open>[!abc]\<close> matches \<open>d\<close> and not \<open>a\<close>.
\<close>

theorem bracket_group_listed_counterexample:
  "fnmatchcase \<lparr>uefi_micropython = False, os_path = Posixpath, strict_ranges = True\<rparr>
      ''b'' ''[a-c]'' = Inr True
   \<and> CHR ''b'' \<notin> set ''a-c''
   \<and> fnmatchcase \<lparr>uefi_micropython = False, os_path = Posixpath, strict_ranges = True\<rparr>
      ''-'' ''[a-c]'' = Inr False
   \<and> CHR ''-'' \<in> set ''a-c''
   \<and> fnmatchcase \<lparr>uefi_micropython = False, os_path = Posixpath, strict_ranges = True\<rparr>
      ''d'' ''[!abc]'' = Inr True
   \<and> CHR ''d'' \<notin> set ''!abc''
   \<and> fnmatchcase \<lparr>uefi_micropython = False, os_path = Posixpath, strict_ranges = True\<rparr>
      ''a'' ''[!abc]'' = Inr False
   \<and> CHR ''a'' \<in> set ''!abc''"
proof -
  let ?h = "\<lparr>uefi_micropython = False, os_path = Posixpath, strict_ranges = True\<rparr>"
  have 1: "fnmatchcase ?h ''b'' ''[a-c]'' = Inr True" by code_simp
  have 2: "fnmatchcase ?h ''-'' ''[a-c]'' = Inr False" by code_simp
  have 3: "fnmatchcase ?h ''d'' ''[!abc]'' = Inr True" by code_simp
  have 4: "fnmatchcase ?h ''a'' ''[!abc]'' = Inr False" by code_simp
  from 1 2 3 4 show ?thesis by simp
qed

text \<open>
  Claim C1 as amended.  At a \<open>[\<close> whose group is closed by a \<open>]\<close> (found after
  the optional leading \<open>!\<close> and the optional first-member \<open>]\<close>, which is what
  \<open>group_ok\<close> says of the content), one iteration of the loop appends the character
  class \<open>[stuff]\<close> and moves past the closing bracket, wherever the group stands in
  the pattern.  Every backslash of the content is doubled.  When the content has no
  leading \<open>!\<close> and no \<open>-\<close>, the engine reads the emitted class, whatever text
  follows it, as a set that matches exactly the listed characters, and the expression
  for the pattern \<open>[stuff]\<close> matches exactly the one-character strings made of a
  listed character.  The expression for \<open>[abc]\<close> matches \<open>a\<close>, \<open>b\<close> and
  \<open>c\<close> and neither \<open>d\<close> nor \<open>ab\<close>; the expression for \<open>[]]\<close> matches
  \<open>]\<close>.
\<close>

theorem bracket_group_listed:
  "(group_ok stuff \<longrightarrow>
      (\<exists>st. bracket_stuff stuff = Inr st
         \<and> translate_loop h (pre @ ''['' @ stuff @ '']'' @ post) (length pre) res =
           translate_loop h (pre @ ''['' @ stuff @ '']'' @ post) (length pre + length stuff + 2)
             (res @ ''['' @ st @ '']'')))
   \<and> bracket_stuff (c # cs) =
       Inr ((if c = CHR ''!'' then ''^''
             else if c = CHR ''^'' then [BSL, CHR ''^'']
             else if c = BSL then [BSL, BSL]
             else [c])
            @ concat (map (\<lambda>x. if x = BSL then [BSL, BSL] else [x]) cs))
   \<and> (group_ok stuff \<and> hd stuff \<noteq> CHR ''!'' \<and> CHR ''-'' \<notin> set stuff
        \<and> bracket_stuff stuff = Inr st \<and> lex rest = Some tr \<longrightarrow>
        lex (''['' @ st @ '']'' @ rest) =
          Some (Raw (CHR ''['') # stuff_toks stuff @ Raw (CHR '']'') # tr)
        \<and> parse_class strict (stuff_toks stuff @ Raw (CHR '']'') # tr) =
          Some (CharSet False (map CChar stuff), tr)
        \<and> atom_ok (CharSet False (map CChar stuff)) x = (x \<in> set stuff))
   \<and> (group_ok stuff \<and> hd stuff \<noteq> CHR ''!'' \<and> CHR ''-'' \<notin> set stuff \<longrightarrow>
        fnmatchcase h name (''['' @ stuff @ '']'') = Inr (\<exists>c\<in>set stuff. name = [c]))
   \<and> fnmatchcase h ''a'' ''[abc]'' = Inr True
   \<and> fnmatchcase h ''b'' ''[abc]'' = Inr True
   \<and> fnmatchcase h ''c'' ''[abc]'' = Inr True
   \<and> fnmatchcase h ''d'' ''[abc]'' = Inr False
   \<and> fnmatchcase h ''ab'' ''[abc]'' = Inr False
   \<and> fnmatchcase h '']'' ''[]]'' = Inr True
   \<and> translate h (''[a'' @ [BSL] @ ''b]'') = Inr (''(?ms)[a'' @ [BSL, BSL] @ ''b]'' @ [BSL, CHR ''Z''])
   \<and> fnmatchcase h [BSL] (''[a'' @ [BSL] @ ''b]'') = Inr True"
proof -
  have a: "group_ok stuff \<longrightarrow>
      (\<exists>st. bracket_stuff stuff = Inr st
         \<and> translate_loop h (pre @ ''['' @ stuff @ '']'' @ post) (length pre) res =
           translate_loop h (pre @ ''['' @ stuff @ '']'' @ post) (length pre + length stuff + 2)
             (res @ ''['' @ st @ '']''))"
    using translate_loop_group [of stuff h pre post res] by blast
  note b = bracket_stuff_doubled [of c cs]
  have d: "group_ok stuff \<and> hd stuff \<noteq> CHR ''!'' \<and> CHR ''-'' \<notin> set stuff
        \<and> bracket_stuff stuff = Inr st \<and> lex rest = Some tr \<longrightarrow>
        lex (''['' @ st @ '']'' @ rest) =
          Some (Raw (CHR ''['') # stuff_toks stuff @ Raw (CHR '']'') # tr)
        \<and> parse_class strict (stuff_toks stuff @ Raw (CHR '']'') # tr) =
          Some (CharSet False (map CChar stuff), tr)
        \<and> atom_ok (CharSet False (map CChar stuff)) x = (x \<in> set stuff)"
  proof
    assume h: "group_ok stuff \<and> hd stuff \<noteq> CHR ''!'' \<and> CHR ''-'' \<notin> set stuff
        \<and> bracket_stuff stuff = Inr st \<and> lex rest = Some tr"
    then have g: "group_ok stuff" and nb: "hd stuff \<noteq> CHR ''!''"
      and nd: "CHR ''-'' \<notin> set stuff" and st: "bracket_stuff stuff = Inr st"
      and tr: "lex rest = Some tr" by simp_all
    have 1: "lex (''['' @ st @ '']'' @ rest) =
          Some (Raw (CHR ''['') # stuff_toks stuff @ Raw (CHR '']'') # tr)"
      by (rule lex_group [OF st tr])
    have 2: "parse_class strict (stuff_toks stuff @ Raw (CHR '']'') # tr) =
          Some (CharSet False (map CChar stuff), tr)"
      by (rule parse_class_listed [OF g nb nd])
    have 3: "atom_ok (CharSet False (map CChar stuff)) x = (x \<in> set stuff)"
      by (simp add: list_ex_CChar)
    from 1 2 3 show "lex (''['' @ st @ '']'' @ rest) =
          Some (Raw (CHR ''['') # stuff_toks stuff @ Raw (CHR '']'') # tr)
        \<and> parse_class strict (stuff_toks stuff @ Raw (CHR '']'') # tr) =
          Some (CharSet False (map CChar stuff), tr)
        \<and> atom_ok (CharSet False (map CChar stuff)) x = (x \<in> set stuff)" by blast
  qed
  have e: "group_ok stuff \<and> hd stuff \<noteq> CHR ''!'' \<and> CHR ''-'' \<notin> set stuff \<longrightarrow>
        fnmatchcase h name (''['' @ stuff @ '']'') = Inr (\<exists>c\<in>set stuff. name = [c])"
    using fnmatchcase_listed [of stuff h name] by blast
  have e1: "fnmatchcase h ''a'' ''[abc]'' = Inr True" by code_simp
  have e2: "fnmatchcase h ''b'' ''[abc]'' = Inr True" by code_simp
  have e3: "fnmatchcase h ''c'' ''[abc]'' = Inr True" by code_simp
  have e4: "fnmatchcase h ''d'' ''[abc]'' = Inr False" by code_simp
  have e5: "fnmatchcase h ''ab'' ''[abc]'' = Inr False" by code_simp
  have e6: "fnmatchcase h '']'' ''[]]'' = Inr True" by code_simp
  have e7: "translate h (''[a'' @ [BSL] @ ''b]'') =
      Inr (''(?ms)[a'' @ [BSL, BSL] @ ''b]'' @ [BSL, CHR ''Z''])" by code_simp
  have e8: "fnmatchcase h [BSL] (''[a'' @ [BSL] @ ''b]'') = Inr True" by code_simp
  from a b d e e1 e2 e3 e4 e5 e6 e7 e8 show ?thesis by blast
qed

theorem bracket_group_listed_witness:
  "group_ok '']a''
   \<and> (\<exists>st. bracket_stuff '']a'' = Inr st
         \<and> translate_loop \<lparr>uefi_micropython = False, os_path = Posixpath, strict_ranges = True\<rparr>
              (''x'' @ ''['' @ '']a'' @ '']'' @ ''*'') (length ''x'') ''y'' =
           translate_loop \<lparr>uefi_micropython = False, os_path = Posixpath, strict_ranges = True\<rparr>
              (''x'' @ ''['' @ '']a'' @ '']'' @ ''*'') (length ''x'' + length '']a'' + 2)
              (''y'' @ ''['' @ st @ '']''))
   \<and> lex (''['' @ '']a'' @ '']'' @ ''.*'') =
        Some (Raw (CHR ''['') # stuff_toks '']a'' @ Raw (CHR '']'') # [Raw (CHR ''.''), Raw (CHR ''*'')])
   \<and> parse_class True (stuff_toks '']a'' @ Raw (CHR '']'') # [Raw (CHR ''.''), Raw (CHR ''*'')]) =
        Some (CharSet False (map CChar '']a''), [Raw (CHR ''.''), Raw (CHR ''*'')])
   \<and> atom_ok (CharSet False (map CChar '']a'')) (CHR '']'')
   \<and> fnmatchcase \<lparr>uefi_micropython = False, os_path = Posixpath, strict_ranges = True\<rparr>
        ''a'' (''['' @ '']a'' @ '']'') = Inr True"
proof -
  let ?h = "\<lparr>uefi_micropython = False, os_path = Posixpath, strict_ranges = True\<rparr>"
  let ?tr = "[Raw (CHR ''.''), Raw (CHR ''*'')]"
  have g: "group_ok '']a''" by (simp add: group_ok_def)
  have p: "hd '']a'' \<noteq> CHR ''!''" "CHR ''-'' \<notin> set '']a''" by simp_all
  have st: "bracket_stuff '']a'' = Inr '']a''" by code_simp
  have lx: "lex ''.*'' = Some ?tr" by simp
  note t = bracket_group_listed [of "'']a''" ?h "''x''" "''*''" "''y''" "CHR '']''" "''a''"
      "'']a''" "''.*''" ?tr True "CHR '']''" "''a''"]
  from t g have 1: "\<exists>st. bracket_stuff '']a'' = Inr st
         \<and> translate_loop ?h (''x'' @ ''['' @ '']a'' @ '']'' @ ''*'') (length ''x'') ''y'' =
           translate_loop ?h (''x'' @ ''['' @ '']a'' @ '']'' @ ''*'') (length ''x'' + length '']a'' + 2)
              (''y'' @ ''['' @ st @ '']'')" by blast
  from t g p st lx have 2: "lex (''['' @ '']a'' @ '']'' @ ''.*'') =
          Some (Raw (CHR ''['') # stuff_toks '']a'' @ Raw (CHR '']'') # ?tr)
        \<and> parse_class True (stuff_toks '']a'' @ Raw (CHR '']'') # ?tr) =
          Some (CharSet False (map CChar '']a''), ?tr)
        \<and> atom_ok (CharSet False (map CChar '']a'')) (CHR '']'') = (CHR '']'' \<in> set '']a'')"
    by blast
  then have 3: "atom_ok (CharSet False (map CChar '']a'')) (CHR '']'')" by simp
  from t g p have "fnmatchcase ?h ''a'' (''['' @ '']a'' @ '']'') = Inr (\<exists>c\<in>set '']a''. ''a'' = [c])"
    by blast
  then have 4: "fnmatchcase ?h ''a'' (''['' @ '']a'' @ '']'') = Inr True" by simp
  from g 1 2 3 4 show ?thesis by blast
qed

text \<open>
  Claim C2.  A leading \<open>!\<close> of the content of a closed group becomes \<open>^\<close>, and the
  expression then matches exactly the one-character strings whose character is not
  listed; a leading literal \<open>^\<close> gets a backslash in front and stays a member of the
  set.  The expression for \<open>[!abc]\<close> matches \<open>d\<close> and not \<open>a\<close>.
\<close>

theorem bracket_group_negated:
  "bracket_stuff (CHR ''!'' # s) = Inr (CHR ''^'' # replace_char s BSL [BSL, BSL])
   \<and> bracket_stuff (CHR ''^'' # s) = Inr (BSL # CHR ''^'' # replace_char s BSL [BSL, BSL])
   \<and> (s \<noteq> [] \<and> CHR '']'' \<notin> set (tl s) \<longrightarrow>
        translate h (''[!'' @ s @ '']'') =
          Inr (''(?ms)[^'' @ replace_char s BSL [BSL, BSL] @ '']'' @ [BSL, CHR ''Z'']))
   \<and> (CHR '']'' \<notin> set s \<longrightarrow>
        translate h (''[^'' @ s @ '']'') =
          Inr (''(?ms)['' @ [BSL] @ ''^'' @ replace_char s BSL [BSL, BSL] @ '']'' @ [BSL, CHR ''Z'']))
   \<and> (s \<noteq> [] \<and> CHR '']'' \<notin> set (tl s) \<and> CHR ''-'' \<notin> set s \<longrightarrow>
        fnmatchcase h name (''[!'' @ s @ '']'') = Inr (\<exists>c. name = [c] \<and> c \<notin> set s))
   \<and> (CHR '']'' \<notin> set s \<and> CHR ''-'' \<notin> set s \<longrightarrow>
        fnmatchcase h name (''[^'' @ s @ '']'') = Inr (\<exists>c\<in>set (CHR ''^'' # s). name = [c]))
   \<and> fnmatchcase h ''d'' ''[!abc]'' = Inr True
   \<and> fnmatchcase h ''a'' ''[!abc]'' = Inr False
   \<and> fnmatchcase h ''^'' ''[^abc]'' = Inr True
   \<and> fnmatchcase h ''a'' ''[^abc]'' = Inr True
   \<and> fnmatchcase h ''d'' ''[^abc]'' = Inr False"
proof -
  have a: "bracket_stuff (CHR ''!'' # s) = Inr (CHR ''^'' # replace_char s BSL [BSL, BSL])"
    by (simp add: bracket_stuff_Cons double_bs_def)
  have b: "bracket_stuff (CHR ''^'' # s) = Inr (BSL # CHR ''^'' # replace_char s BSL [BSL, BSL])"
    by (simp add: bracket_stuff_Cons double_bs_def)
  have c: "s \<noteq> [] \<and> CHR '']'' \<notin> set (tl s) \<longrightarrow>
        translate h (''[!'' @ s @ '']'') =
          Inr (''(?ms)[^'' @ replace_char s BSL [BSL, BSL] @ '']'' @ [BSL, CHR ''Z''])"
  proof
    assume "s \<noteq> [] \<and> CHR '']'' \<notin> set (tl s)"
    then have "group_ok (CHR ''!'' # s)" by (simp add: group_ok_negated)
    from translate_group_only [OF this, of h] a show
      "translate h (''[!'' @ s @ '']'') =
          Inr (''(?ms)[^'' @ replace_char s BSL [BSL, BSL] @ '']'' @ [BSL, CHR ''Z''])"
      by auto
  qed
  have d: "CHR '']'' \<notin> set s \<longrightarrow>
        translate h (''[^'' @ s @ '']'') =
          Inr (''(?ms)['' @ [BSL] @ ''^'' @ replace_char s BSL [BSL, BSL] @ '']'' @ [BSL, CHR ''Z''])"
  proof
    assume "CHR '']'' \<notin> set s"
    then have "group_ok (CHR ''^'' # s)" by (simp add: group_ok_def)
    from translate_group_only [OF this, of h] b show
      "translate h (''[^'' @ s @ '']'') =
          Inr (''(?ms)['' @ [BSL] @ ''^'' @ replace_char s BSL [BSL, BSL] @ '']'' @ [BSL, CHR ''Z''])"
      by auto
  qed
  have e: "s \<noteq> [] \<and> CHR '']'' \<notin> set (tl s) \<and> CHR ''-'' \<notin> set s \<longrightarrow>
        fnmatchcase h name (''[!'' @ s @ '']'') = Inr (\<exists>c. name = [c] \<and> c \<notin> set s)"
    using fnmatchcase_negated [of s h name] by blast
  have f: "CHR '']'' \<notin> set s \<and> CHR ''-'' \<notin> set s \<longrightarrow>
        fnmatchcase h name (''[^'' @ s @ '']'') = Inr (\<exists>c\<in>set (CHR ''^'' # s). name = [c])"
  proof
    assume h: "CHR '']'' \<notin> set s \<and> CHR ''-'' \<notin> set s"
    then have g: "group_ok (CHR ''^'' # s)" by (simp add: group_ok_def)
    from fnmatchcase_listed [OF g, of h name] h show
      "fnmatchcase h name (''[^'' @ s @ '']'') = Inr (\<exists>c\<in>set (CHR ''^'' # s). name = [c])"
      by simp
  qed
  have e1: "fnmatchcase h ''d'' ''[!abc]'' = Inr True" by code_simp
  have e2: "fnmatchcase h ''a'' ''[!abc]'' = Inr False" by code_simp
  have e3: "fnmatchcase h ''^'' ''[^abc]'' = Inr True" by code_simp
  have e4: "fnmatchcase h ''a'' ''[^abc]'' = Inr True" by code_simp
  have e5: "fnmatchcase h ''d'' ''[^abc]'' = Inr False" by code_simp
  from a b c d e f e1 e2 e3 e4 e5 show ?thesis by blast
qed

theorem bracket_group_negated_witness:
  "translate \<lparr>uefi_micropython = False, os_path = Posixpath, strict_ranges = True\<rparr>
       (''[!'' @ ''xy'' @ '']'') = Inr (''(?ms)[^xy]'' @ [BSL, CHR ''Z''])
   \<and> translate \<lparr>uefi_micropython = False, os_path = Posixpath, strict_ranges = True\<rparr>
       (''[^'' @ ''xy'' @ '']'') = Inr (''(?ms)['' @ [BSL] @ ''^xy]'' @ [BSL, CHR ''Z''])
   \<and> fnmatchcase \<lparr>uefi_micropython = False, os_path = Posixpath, strict_ranges = True\<rparr>
       ''q'' (''[!'' @ ''xy'' @ '']'') = Inr True
   \<and> fnmatchcase \<lparr>uefi_micropython = False, os_path = Posixpath, strict_ranges = True\<rparr>
       ''q'' (''[^'' @ ''xy'' @ '']'') = Inr False"
proof -
  let ?h = "\<lparr>uefi_micropython = False, os_path = Posixpath, strict_ranges = True\<rparr>"
  have p: "''xy'' \<noteq> []" "CHR '']'' \<notin> set (tl ''xy'')" "CHR ''-'' \<notin> set ''xy''"
    "CHR '']'' \<notin> set ''xy''" by simp_all
  have r: "replace_char ''xy'' BSL [BSL, BSL] = ''xy''" by (simp add: replace_char_def)
  note t = bracket_group_negated [of "''xy''" ?h "''q''"]
  from t p have "translate ?h (''[!'' @ ''xy'' @ '']'') =
      Inr (''(?ms)[^'' @ replace_char ''xy'' BSL [BSL, BSL] @ '']'' @ [BSL, CHR ''Z''])" by blast
  then have 1: "translate ?h (''[!'' @ ''xy'' @ '']'') = Inr (''(?ms)[^xy]'' @ [BSL, CHR ''Z''])"
    by (simp add: r)
  from t p have "translate ?h (''[^'' @ ''xy'' @ '']'') =
      Inr (''(?ms)['' @ [BSL] @ ''^'' @ replace_char ''xy'' BSL [BSL, BSL] @ '']'' @ [BSL, CHR ''Z''])"
    by blast
  then have 2: "translate ?h (''[^'' @ ''xy'' @ '']'') =
      Inr (''(?ms)['' @ [BSL] @ ''^xy]'' @ [BSL, CHR ''Z''])"
    by (simp add: r)
  from t p have "fnmatchcase ?h ''q'' (''[!'' @ ''xy'' @ '']'') =
      Inr (\<exists>c. ''q'' = [c] \<and> c \<notin> set ''xy'')" by blast
  then have 3: "fnmatchcase ?h ''q'' (''[!'' @ ''xy'' @ '']'') = Inr True" by simp
  from t p have "fnmatchcase ?h ''q'' (''[^'' @ ''xy'' @ '']'') =
      Inr (\<exists>c\<in>set (CHR ''^'' # ''xy''). ''q'' = [c])" by blast
  then have 4: "fnmatchcase ?h ''q'' (''[^'' @ ''xy'' @ '']'') = Inr False" by simp
  from 1 2 3 4 show ?thesis by blast
qed

subsection \<open>Unterminated groups\<close>

lemma group_skip_le: "group_skip rest \<le> length rest"
  by (cases rest) (auto simp: group_skip_def Let_def)

lemma bracket_end_skip:
  "bracket_end (pre @ rest) (length pre) =
     scan_close (pre @ rest) (length pre + group_skip rest)"
proof (cases rest)
  case Nil
  then show ?thesis by (simp add: bracket_end_def group_skip_def)
next
  case (Cons c cs)
  have p0: "(pre @ c # cs) ! length pre = c" by simp
  have p1: "cs \<noteq> [] \<Longrightarrow> (pre @ c # cs) ! Suc (length pre) = hd cs"
    by (cases cs) (simp_all add: nth_append)
  show ?thesis
    unfolding Cons bracket_end_def group_skip_def Let_def
    using p1 by (cases cs) (auto simp: p0 nth_append)
qed

lemma bracket_end_open:
  assumes "CHR '']'' \<notin> set (drop (group_skip rest) rest)"
  shows "bracket_end (pre @ rest) (length pre) = length (pre @ rest)"
proof -
  let ?k = "group_skip rest"
  have k: "?k \<le> length rest" by (rule group_skip_le)
  have e1: "(pre @ take ?k rest) @ drop ?k rest = pre @ rest" by simp
  have e2: "length (pre @ take ?k rest) = length pre + ?k" using k by simp
  have e3: "length pre + ?k + length (drop ?k rest) = length (pre @ rest)" using k by simp
  from scan_close_append_open [OF assms, of "pre @ take ?k rest"]
  have "scan_close (pre @ rest) (length pre + ?k) = length (pre @ rest)"
    unfolding e1 e2 e3 .
  then show ?thesis by (simp only: bracket_end_skip)
qed

lemma translate_loop_unterminated:
  assumes "CHR '']'' \<notin> set (drop (group_skip rest) rest)"
  shows "translate_loop h (pre @ CHR ''['' # rest) (length pre) res =
         translate_loop h (pre @ CHR ''['' # rest) (length pre + 1) (res @ [BSL, CHR ''['']) "
proof -
  let ?pat = "pre @ CHR ''['' # rest"
  have i: "length pre < length ?pat" by simp
  have p0: "?pat ! length pre = CHR ''[''" by simp
  from bracket_end_open [OF assms, of "pre @ ''[''"]
  have "length ?pat \<le> bracket_end ?pat (length pre + 1)" by simp
  from translate_loop_open [OF i p0 this] show ?thesis .
qed

lemma compile_open_bracket: "compile_pattern h ''['' = Inr [One (Lit (CHR ''['')), EndAbs]"
  by code_simp

text \<open>Shifting the pattern by one character in front shifts the scan.\<close>

lemma scan_close_shift: "scan_close (c # pat) (j + 1) = scan_close pat j + 1"
proof (induction pat j rule: scan_close.induct)
  case (1 pat j)
  show ?case
  proof (cases "j < length pat \<and> pat ! j \<noteq> CHR '']''")
    case True
    then have "scan_close (c # pat) (j + 1) = scan_close (c # pat) (j + 1 + 1)"
      by (intro scan_close_step) simp_all
    moreover from True have "scan_close pat j = scan_close pat (j + 1)"
      by (intro scan_close_step) simp_all
    ultimately show ?thesis using "1.IH" [OF True] by simp
  next
    case False
    then have a: "scan_close pat j = j" by (subst scan_close.simps) auto
    from False have "scan_close (c # pat) (j + 1) = j + 1"
      by (subst scan_close.simps) auto
    with a show ?thesis by simp
  qed
qed

lemma bracket_end_shift: "bracket_end (c # pat) (i + 1) = bracket_end pat i + 1"
proof -
  have s: "\<And>j. scan_close (c # pat) (Suc j) = Suc (scan_close pat j)"
    using scan_close_shift [of c pat] by simp
  show ?thesis by (auto simp: bracket_end_def Let_def s)
qed

lemma slice_shift: "slice (c # pat) (a + 1) (b + 1) = slice pat a b"
  by (simp add: slice_def)

lemma translate_loop_shift:
  "translate_loop h (c # pat) (i + 1) res = translate_loop h pat i res"
proof (induction h pat i res rule: translate_loop.induct)
  case (1 h pat i res)
  let ?cp = "c # pat"
  have nth: "?cp ! (i + 1) = pat ! i" by simp
  show ?case
  proof (cases "i < length pat")
    case False
    then show ?thesis by (simp add: translate_loop_end)
  next
    case lt: True
    then have lt': "i + 1 < length ?cp" by simp
    show ?thesis
    proof (cases "pat ! i = CHR ''*''")
      case True
      have "translate_loop h ?cp (i + 1) res = translate_loop h ?cp (i + 1 + 1) (res @ ''.*'')"
        by (rule translate_loop_star [OF lt']) (simp add: True)
      also have "\<dots> = translate_loop h pat (i + 1) (res @ ''.*'')"
        by (rule "1.IH"(1) [OF lt True])
      also have "\<dots> = translate_loop h pat i res"
        by (rule translate_loop_star [OF lt True, symmetric])
      finally show ?thesis .
    next
      case ns: False
      show ?thesis
      proof (cases "pat ! i = CHR ''?''")
        case True
        have "translate_loop h ?cp (i + 1) res = translate_loop h ?cp (i + 1 + 1) (res @ ''.'')"
          by (rule translate_loop_question [OF lt']) (simp add: True)
        also have "\<dots> = translate_loop h pat (i + 1) (res @ ''.'')"
          by (rule "1.IH"(2) [OF lt ns True])
        also have "\<dots> = translate_loop h pat i res"
          by (rule translate_loop_question [OF lt True, symmetric])
        finally show ?thesis .
      next
        case nq: False
        show ?thesis
        proof (cases "pat ! i = CHR ''[''")
          case False
          have "translate_loop h ?cp (i + 1) res =
                translate_loop h ?cp (i + 1 + 1) (res @ escape_char h (?cp ! (i + 1)))"
            by (rule translate_loop_literal [OF lt']) (simp_all add: ns nq False)
          also have "\<dots> = translate_loop h ?cp (i + 1 + 1) (res @ escape_char h (pat ! i))"
            by (simp only: nth)
          also have "\<dots> = translate_loop h pat (i + 1) (res @ escape_char h (pat ! i))"
            by (rule "1.IH"(5) [OF lt ns nq False])
          also have "\<dots> = translate_loop h pat i res"
            by (rule translate_loop_literal [OF lt ns nq False, symmetric])
          finally show ?thesis .
        next
          case br: True
          have br': "?cp ! (i + 1) = CHR ''[''" by (simp add: br)
          have be: "bracket_end ?cp (i + 1 + 1) = bracket_end pat (i + 1) + 1"
            by (rule bracket_end_shift)
          show ?thesis
          proof (cases "length pat \<le> bracket_end pat (i + 1)")
            case True
            then have "length ?cp \<le> bracket_end ?cp (i + 1 + 1)" unfolding be by simp
            from translate_loop_open [OF lt' br' this]
            have "translate_loop h ?cp (i + 1) res =
                  translate_loop h ?cp (i + 1 + 1) (res @ [BSL, CHR ''[''])" .
            also have "\<dots> = translate_loop h pat (i + 1) (res @ [BSL, CHR ''[''])"
              by (rule "1.IH"(3) [OF lt ns nq br True])
            also have "\<dots> = translate_loop h pat i res"
              by (rule translate_loop_open [OF lt br True, symmetric])
            finally show ?thesis .
          next
            case closed: False
            let ?j = "bracket_end pat (i + 1)"
            from closed have j: "?j < length pat" by simp
            then have j': "?j + 1 < length ?cp" by simp
            from bracket_end_gt [OF j] have "i + 1 < ?j" .
            from slice_nonempty [OF this j]
            obtain st where st: "bracket_stuff (slice pat (i + 1) ?j) = Inr st"
              by (simp add: bracket_stuff_Cons)
            have st': "bracket_stuff (slice ?cp (i + 1 + 1) (?j + 1)) = Inr st"
              by (simp only: slice_shift st)
            have "translate_loop h ?cp (i + 1) res =
                  translate_loop h ?cp (?j + 1 + 1) (res @ ''['' @ st @ '']'')"
              by (rule translate_loop_closed [OF lt' br' be j' st'])
            also have "\<dots> = translate_loop h pat (?j + 1) (res @ ''['' @ st @ '']'')"
              by (rule "1.IH"(4) [OF lt ns nq br closed st])
            also have "\<dots> = translate_loop h pat i res"
              by (rule translate_loop_closed [OF lt br refl j st, symmetric])
            finally show ?thesis .
          qed
        qed
      qed
    qed
  qed
qed

text \<open>The accumulated text is a prefix of the result.\<close>

lemma translate_loop_acc:
  "translate_loop h pat i res = Inr out \<Longrightarrow>
   translate_loop h pat i (pre @ res) = Inr (pre @ out)"
proof (induction h pat i res arbitrary: out rule: translate_loop.induct)
  case (1 h pat i res)
  note out = "1.prems"
  show ?case
  proof (cases "i < length pat")
    case False
    with out show ?thesis by (simp add: translate_loop_end)
  next
    case lt: True
    show ?thesis
    proof (cases "pat ! i = CHR ''*''")
      case True
      from out have "translate_loop h pat (i + 1) (res @ ''.*'') = Inr out"
        by (simp only: translate_loop_star [OF lt True])
      from "1.IH"(1) [OF lt True this] show ?thesis
        by (simp only: translate_loop_star [OF lt True] append_assoc)
    next
      case ns: False
      show ?thesis
      proof (cases "pat ! i = CHR ''?''")
        case True
        from out have "translate_loop h pat (i + 1) (res @ ''.'') = Inr out"
          by (simp only: translate_loop_question [OF lt True])
        from "1.IH"(2) [OF lt ns True this] show ?thesis
          by (simp only: translate_loop_question [OF lt True] append_assoc)
      next
        case nq: False
        show ?thesis
        proof (cases "pat ! i = CHR ''[''")
          case False
          from out have "translate_loop h pat (i + 1) (res @ escape_char h (pat ! i)) = Inr out"
            by (simp only: translate_loop_literal [OF lt ns nq False])
          from "1.IH"(5) [OF lt ns nq False this] show ?thesis
            by (simp only: translate_loop_literal [OF lt ns nq False] append_assoc)
        next
          case br: True
          show ?thesis
          proof (cases "length pat \<le> bracket_end pat (i + 1)")
            case True
            from out have "translate_loop h pat (i + 1) (res @ [BSL, CHR ''['']) = Inr out"
              by (simp only: translate_loop_open [OF lt br True])
            from "1.IH"(3) [OF lt ns nq br True this] show ?thesis
              by (simp only: translate_loop_open [OF lt br True] append_assoc)
          next
            case closed: False
            let ?j = "bracket_end pat (i + 1)"
            from closed have j: "?j < length pat" by simp
            from bracket_end_gt [OF j] have "i + 1 < ?j" .
            from slice_nonempty [OF this j]
            obtain st where st: "bracket_stuff (slice pat (i + 1) ?j) = Inr st"
              by (simp add: bracket_stuff_Cons)
            note step = translate_loop_closed [OF lt br refl j st]
            from out have "translate_loop h pat (?j + 1) (res @ ''['' @ st @ '']'') = Inr out"
              by (simp only: step)
            from "1.IH"(4) [OF lt ns nq br closed st this] show ?thesis
              by (simp only: step append_assoc)
          qed
        qed
      qed
    qed
  qed
qed

subsection \<open>The unterminated group as a literal\<close>

lemma re_match_lit_only:
  "re_match [One (Lit d), EndAbs] name = (name = [d])"
  by (auto simp: re_match_one)

lemma compile_open_a_star:
  "compile_pattern h ''[a*'' =
     Inr [One (Lit (CHR ''['')), One (Lit (CHR ''a'')), Star (Dot True), EndAbs]"
  by code_simp

lemma re_match_open_a_star:
  "re_match [One (Lit (CHR ''['')), One (Lit (CHR ''a'')), Star (Dot True), EndAbs] name =
     (take 2 name = ''[a'')"
proof (cases name)
  case Nil
  then show ?thesis by simp
next
  case (Cons c cs)
  then show ?thesis by (cases cs) (auto simp: re_match_star_any)
qed

text \<open>
  Claim C3.  At a \<open>[\<close> with no closing \<open>]\<close> before the end of the pattern (none
  after the optional \<open>!\<close> and the optional first-member \<open>]\<close>), the loop appends the
  escaped literal \<open>\[\<close> and goes on to the next character; the scan returns a
  string from there, so the translation does not fail.  The expression for the pattern
  \<open>[\<close> matches the string \<open>[\<close> and nothing else.
\<close>

theorem unterminated_bracket_literal:
  "(CHR '']'' \<notin> set (drop (group_skip rest) rest) \<longrightarrow>
      translate_loop h (pre @ CHR ''['' # rest) (length pre) res =
      translate_loop h (pre @ CHR ''['' # rest) (length pre + 1) (res @ [BSL, CHR ''[''])
      \<and> (\<exists>out. translate_loop h (pre @ CHR ''['' # rest) (length pre + 1)
                  (res @ [BSL, CHR ''['']) = Inr out))
   \<and> (i < length pat \<and> pat ! i = CHR ''['' \<and> length pat \<le> bracket_end pat (i + 1) \<longrightarrow>
        translate_loop h pat i res = translate_loop h pat (i + 1) (res @ [BSL, CHR ''['']))
   \<and> translate h ''['' = Inr (''(?ms)'' @ [BSL, CHR ''[''] @ [BSL, CHR ''Z''])
   \<and> fnmatchcase h name ''['' = Inr (name = ''['')"
proof -
  have a: "CHR '']'' \<notin> set (drop (group_skip rest) rest) \<longrightarrow>
      translate_loop h (pre @ CHR ''['' # rest) (length pre) res =
      translate_loop h (pre @ CHR ''['' # rest) (length pre + 1) (res @ [BSL, CHR ''[''])
      \<and> (\<exists>out. translate_loop h (pre @ CHR ''['' # rest) (length pre + 1)
                  (res @ [BSL, CHR ''['']) = Inr out)"
    using translate_loop_unterminated [of rest h pre res]
      translate_loop_total [of h "pre @ CHR ''['' # rest" "length pre + 1" "res @ [BSL, CHR ''['']"]
    by blast
  have b: "i < length pat \<and> pat ! i = CHR ''['' \<and> length pat \<le> bracket_end pat (i + 1) \<longrightarrow>
        translate_loop h pat i res = translate_loop h pat (i + 1) (res @ [BSL, CHR ''['']) "
    using translate_loop_open [of i pat h res] by blast
  have c: "translate h ''['' = Inr (''(?ms)'' @ [BSL, CHR ''[''] @ [BSL, CHR ''Z''])"
    by code_simp
  have d: "fnmatchcase h name ''['' = Inr (name = ''['')"
    by (simp add: fnmatchcase_def compile_open_bracket re_match_lit_only)
  from a b c d show ?thesis by blast
qed

theorem unterminated_bracket_literal_witness:
  "translate_loop \<lparr>uefi_micropython = False, os_path = Posixpath, strict_ranges = True\<rparr>
      (''a'' @ CHR ''['' # ''!]x'') (length ''a'') ''a'' =
   translate_loop \<lparr>uefi_micropython = False, os_path = Posixpath, strict_ranges = True\<rparr>
      (''a'' @ CHR ''['' # ''!]x'') (length ''a'' + 1) (''a'' @ [BSL, CHR ''[''])
   \<and> (\<exists>out. translate_loop \<lparr>uefi_micropython = False, os_path = Posixpath, strict_ranges = True\<rparr>
      (''a'' @ CHR ''['' # ''!]x'') (length ''a'' + 1) (''a'' @ [BSL, CHR ''['']) = Inr out)
   \<and> translate_loop \<lparr>uefi_micropython = False, os_path = Posixpath, strict_ranges = True\<rparr>
      ''[]'' 0 ''a'' =
     translate_loop \<lparr>uefi_micropython = False, os_path = Posixpath, strict_ranges = True\<rparr>
      ''[]'' (0 + 1) (''a'' @ [BSL, CHR ''[''])"
proof -
  let ?h = "\<lparr>uefi_micropython = False, os_path = Posixpath, strict_ranges = True\<rparr>"
  have p: "CHR '']'' \<notin> set (drop (group_skip ''!]x'') ''!]x'')" by code_simp
  have q: "(0::nat) < length ''[]''" "''[]'' ! 0 = CHR ''[''" by simp_all
  have r: "length ''[]'' \<le> bracket_end ''[]'' (0 + 1)" by code_simp
  from unterminated_bracket_literal [of "''!]x''" ?h "''a''" "''a''" 0 "''[]''" "[]"] p
  have 1: "translate_loop ?h (''a'' @ CHR ''['' # ''!]x'') (length ''a'') ''a'' =
      translate_loop ?h (''a'' @ CHR ''['' # ''!]x'') (length ''a'' + 1) (''a'' @ [BSL, CHR ''[''])
      \<and> (\<exists>out. translate_loop ?h (''a'' @ CHR ''['' # ''!]x'') (length ''a'' + 1)
                  (''a'' @ [BSL, CHR ''['']) = Inr out)"
    by blast
  from unterminated_bracket_literal [of "''!]x''" ?h "''a''" "''a''" 0 "''[]''" "[]"] q r
  have 2: "translate_loop ?h ''[]'' 0 ''a'' = translate_loop ?h ''[]'' (0 + 1) (''a'' @ [BSL, CHR ''[''])"
    by blast
  from 1 2 show ?thesis by blast
qed

text \<open>
  Claim C10.  After the \<open>\[\<close> of an unterminated group the scan resumes at the
  character right after the \<open>[\<close>: the rest of the pattern is translated as it would
  be on its own, so its wildcards keep their meaning.  The expression for \<open>[a*\<close>
  matches exactly the strings that start with \<open>[a\<close>; it matches \<open>[abc\<close> and not
  \<open>a\<close>.
\<close>

theorem unterminated_bracket_resumes:
  "(CHR '']'' \<notin> set (drop (group_skip rest) rest) \<longrightarrow>
      (\<exists>body. translate h rest = Inr (''(?ms)'' @ body @ [BSL, CHR ''Z''])
         \<and> translate h (CHR ''['' # rest) =
             Inr (''(?ms)'' @ [BSL, CHR ''[''] @ body @ [BSL, CHR ''Z''])))
   \<and> translate h ''[a*'' = Inr (''(?ms)'' @ [BSL, CHR ''[''] @ ''a.*'' @ [BSL, CHR ''Z''])
   \<and> fnmatchcase h name ''[a*'' = Inr (take 2 name = ''[a'')
   \<and> fnmatchcase h ''[abc'' ''[a*'' = Inr True
   \<and> fnmatchcase h ''[a'' ''[a*'' = Inr True
   \<and> fnmatchcase h ''a'' ''[a*'' = Inr False"
proof -
  have a: "CHR '']'' \<notin> set (drop (group_skip rest) rest) \<longrightarrow>
      (\<exists>body. translate h rest = Inr (''(?ms)'' @ body @ [BSL, CHR ''Z''])
         \<and> translate h (CHR ''['' # rest) =
             Inr (''(?ms)'' @ [BSL, CHR ''[''] @ body @ [BSL, CHR ''Z'']))"
  proof
    assume op: "CHR '']'' \<notin> set (drop (group_skip rest) rest)"
    obtain body where body: "translate_loop h rest 0 [] = Inr body"
      using translate_loop_total by blast
    from translate_loop_unterminated [OF op, of h "[]" "[]"]
    have "translate_loop h (CHR ''['' # rest) 0 [] =
          translate_loop h (CHR ''['' # rest) (0 + 1) [BSL, CHR ''['']" by simp
    also have "\<dots> = translate_loop h rest 0 [BSL, CHR ''['']"
      by (rule translate_loop_shift)
    also have "\<dots> = Inr ([BSL, CHR ''[''] @ body)"
      using translate_loop_acc [OF body, of "[BSL, CHR ''['']"] by simp
    finally have "translate h (CHR ''['' # rest) =
        Inr (''(?ms)'' @ [BSL, CHR ''[''] @ body @ [BSL, CHR ''Z''])"
      by (simp add: translate_def)
    moreover from body have "translate h rest = Inr (''(?ms)'' @ body @ [BSL, CHR ''Z''])"
      by (simp add: translate_def)
    ultimately show "\<exists>body. translate h rest = Inr (''(?ms)'' @ body @ [BSL, CHR ''Z''])
         \<and> translate h (CHR ''['' # rest) =
             Inr (''(?ms)'' @ [BSL, CHR ''[''] @ body @ [BSL, CHR ''Z''])" by blast
  qed
  have b: "translate h ''[a*'' = Inr (''(?ms)'' @ [BSL, CHR ''[''] @ ''a.*'' @ [BSL, CHR ''Z''])"
    by code_simp
  have c: "\<And>name. fnmatchcase h name ''[a*'' = Inr (take 2 name = ''[a'')"
    by (simp add: fnmatchcase_def compile_open_a_star re_match_open_a_star)
  have d: "fnmatchcase h ''[abc'' ''[a*'' = Inr True" "fnmatchcase h ''[a'' ''[a*'' = Inr True"
    "fnmatchcase h ''a'' ''[a*'' = Inr False"
    by (simp_all add: c)
  from a b c d show ?thesis by blast
qed

theorem unterminated_bracket_resumes_witness:
  "\<exists>body. translate \<lparr>uefi_micropython = False, os_path = Posixpath, strict_ranges = True\<rparr> ''a*'' =
             Inr (''(?ms)'' @ body @ [BSL, CHR ''Z''])
        \<and> translate \<lparr>uefi_micropython = False, os_path = Posixpath, strict_ranges = True\<rparr>
             (CHR ''['' # ''a*'') =
             Inr (''(?ms)'' @ [BSL, CHR ''[''] @ body @ [BSL, CHR ''Z''])"
proof -
  have p: "CHR '']'' \<notin> set (drop (group_skip ''a*'') ''a*'')" by code_simp
  from unterminated_bracket_resumes
     [of "''a*''" "\<lparr>uefi_micropython = False, os_path = Posixpath, strict_ranges = True\<rparr>" "[]"] p
  show ?thesis by blast
qed

subsection \<open>Patterns without wildcards\<close>

lemma translate_loop_plain:
  "set P \<inter> wildcards = {} \<Longrightarrow>
   translate_loop h P 0 res = Inr (res @ concat (map (escape_char h) P))"
proof (induction P arbitrary: res)
  case Nil
  show ?case by (simp add: translate_loop_end)
next
  case (Cons c P)
  then have c: "c \<noteq> CHR ''*''" "c \<noteq> CHR ''?''" "c \<noteq> CHR ''[''"
    and P: "set P \<inter> wildcards = {}" by auto
  have "translate_loop h (c # P) 0 res =
        translate_loop h (c # P) (0 + 1) (res @ escape_char h ((c # P) ! 0))"
    by (rule translate_loop_literal) (simp_all add: c)
  also have "\<dots> = translate_loop h P 0 (res @ escape_char h c)"
    using translate_loop_shift [of h c P 0] by simp
  also have "\<dots> = Inr ((res @ escape_char h c) @ concat (map (escape_char h) P))"
    by (rule Cons.IH [OF P])
  finally show ?case by simp
qed

lemma lex_escaped:
  "lex rest = Some tr \<Longrightarrow>
   lex (concat (map (escape_char h) P) @ rest) = Some (map esc_tok P @ tr)"
proof (induction P)
  case Nil
  then show ?case by simp
next
  case (Cons c P)
  from lex_escape_char [OF Cons.IH [OF Cons.prems], of h c] show ?case by simp
qed

lemma esc_tok_not_star: "esc_tok c \<noteq> Raw (CHR ''*'')"
  by (simp add: esc_tok_def special_bytes_def)

lemma quant_one: "ts = [] \<or> hd ts \<noteq> Raw (CHR ''*'') \<Longrightarrow> quant a ts = Some (One a, ts)"
  by (cases ts) (auto simp: quant_def)

lemma unsupported_special: "c \<in> set unsupported \<Longrightarrow> c \<in> set special_bytes"
  by (auto simp: unsupported_def special_bytes_def)

lemma parse_item_esc_tok:
  assumes "ts = [] \<or> hd ts \<noteq> Raw (CHR ''*'')"
  shows "parse_item strict dotall (esc_tok c # ts) = Some (One (Lit c), ts)"
proof (cases "c \<in> set special_bytes")
  case True
  then have "\<not> is_alnum c" by (rule special_not_alnum)
  moreover from True have "c \<noteq> CHR ''Z''" by (auto simp: special_bytes_def)
  ultimately show ?thesis
    using True by (simp add: parse_item_def esc_tok_def quant_one [OF assms])
next
  case False
  then have "c \<noteq> CHR ''.''" "c \<noteq> CHR ''[''" by (auto simp: special_bytes_def)
  moreover from False have "c \<notin> set unsupported" using unsupported_special by blast
  ultimately show ?thesis
    using False by (simp add: parse_item_def esc_tok_def quant_one [OF assms])
qed

lemma parse_items_escaped:
  "parse_items strict dotall (map esc_tok P) = Some (map (\<lambda>c. One (Lit c)) P)"
proof (induction P)
  case Nil
  show ?case by (simp add: parse_items_Nil)
next
  case (Cons c P)
  have "map esc_tok P = [] \<or> hd (map esc_tok P) \<noteq> Raw (CHR ''*'')"
    by (cases P) (simp_all add: esc_tok_not_star)
  from parse_item_esc_tok [OF this, of strict dotall c] Cons.IH show ?case
    by (simp add: parse_items_Cons)
qed

lemma fullmatch_literals: "fullmatch (map (\<lambda>c. One (Lit c)) P) name = (name = P)"
proof (induction P arbitrary: name)
  case Nil
  show ?case by simp
next
  case (Cons c P)
  then show ?case by (cases name) auto
qed

lemma compile_plain:
  assumes "set P \<inter> wildcards = {}"
  shows "compile_pattern h P = Inr (map (\<lambda>c. One (Lit c)) P @ [EndAbs])"
proof -
  from translate_loop_plain [OF assms, of h "[]"]
  have tr: "translate h P = Inr (''(?ms)'' @ concat (map (escape_char h) P) @ [BSL, CHR ''Z''])"
    by (simp add: translate_def)
  have lx: "lex (concat (map (escape_char h) P) @ [BSL, CHR ''Z'']) = Some (map esc_tok P @ [ENDZ])"
    by (rule lex_escaped) simp
  have "parse_items (strict_ranges h) True (map esc_tok P @ [ENDZ]) =
        Some (map (\<lambda>c. One (Lit c)) P @ [EndAbs])"
    by (simp add: parse_items_endz parse_items_escaped)
  with re_compile_translated [OF lx, of "strict_ranges h"] tr show ?thesis
    by (simp add: compile_pattern_def)
qed

text \<open>
  Claim C6.  A pattern with none of \<open>*\<close>, \<open>?\<close>, \<open>[\<close> is translated character by
  character with \<open>escape_char\<close>: a character of the escape set (the regex
  metacharacters and whitespace) gets a backslash, every other character, the
  alphanumerics among them, passes through.  The expression matches the pattern
  itself, and no other string.
\<close>

theorem literal_pattern_matches_itself:
  "(set P \<inter> {CHR ''*'', CHR ''?'', CHR ''[''} = {} \<longrightarrow>
      fnmatchcase h P P = Inr True
      \<and> fnmatchcase h name P = Inr (name = P)
      \<and> translate h P = Inr (''(?ms)'' @ concat (map (escape_char h) P) @ [BSL, CHR ''Z'']))
   \<and> escape_char h c = (if c \<in> set special_bytes then [BSL, c] else [c])
   \<and> (is_alnum c \<longrightarrow> escape_char h c = [c])
   \<and> escape_char h (CHR ''.'') = [BSL, CHR ''.'']
   \<and> escape_char h (CHR '' '') = [BSL, CHR '' '']
   \<and> escape_char h NEWLINE = [BSL, NEWLINE]"
proof -
  have a: "set P \<inter> {CHR ''*'', CHR ''?'', CHR ''[''} = {} \<longrightarrow>
      fnmatchcase h P P = Inr True
      \<and> fnmatchcase h name P = Inr (name = P)
      \<and> translate h P = Inr (''(?ms)'' @ concat (map (escape_char h) P) @ [BSL, CHR ''Z''])"
  proof
    assume p: "set P \<inter> {CHR ''*'', CHR ''?'', CHR ''[''} = {}"
    have m: "\<And>n. fnmatchcase h n P = Inr (n = P)"
      by (simp add: fnmatchcase_def compile_plain [OF p] re_match_endabs fullmatch_literals)
    from translate_loop_plain [OF p, of h "[]"]
    have "translate h P = Inr (''(?ms)'' @ concat (map (escape_char h) P) @ [BSL, CHR ''Z''])"
      by (simp add: translate_def)
    with m show "fnmatchcase h P P = Inr True
      \<and> fnmatchcase h name P = Inr (name = P)
      \<and> translate h P = Inr (''(?ms)'' @ concat (map (escape_char h) P) @ [BSL, CHR ''Z''])"
      by simp
  qed
  have b: "escape_char h c = (if c \<in> set special_bytes then [BSL, c] else [c])"
    by (rule escape_char_eq)
  have c: "is_alnum c \<longrightarrow> escape_char h c = [c]"
    using special_not_alnum [of c] by (auto simp: escape_char_eq)
  have d: "escape_char h (CHR ''.'') = [BSL, CHR ''.'']"
    "escape_char h (CHR '' '') = [BSL, CHR '' '']"
    "escape_char h NEWLINE = [BSL, NEWLINE]"
    by (simp_all add: escape_char_eq special_bytes_def)
  from a b c d show ?thesis by blast
qed

theorem literal_pattern_matches_itself_witness:
  "fnmatchcase \<lparr>uefi_micropython = True, os_path = Posixpath, strict_ranges = True\<rparr>
      ''a.b c-d'' ''a.b c-d'' = Inr True
   \<and> fnmatchcase \<lparr>uefi_micropython = True, os_path = Posixpath, strict_ranges = True\<rparr>
      ''axb c-d'' ''a.b c-d'' = Inr False
   \<and> escape_char \<lparr>uefi_micropython = True, os_path = Posixpath, strict_ranges = True\<rparr>
      (CHR ''a'') = ''a''"
proof -
  let ?h = "\<lparr>uefi_micropython = True, os_path = Posixpath, strict_ranges = True\<rparr>"
  have p: "set ''a.b c-d'' \<inter> {CHR ''*'', CHR ''?'', CHR ''[''} = {}" by simp
  have q: "is_alnum (CHR ''a'')" by (simp add: is_alnum_def)
  note t = literal_pattern_matches_itself [of "''a.b c-d''" ?h "''axb c-d''" "CHR ''a''"]
  from t p have 1: "fnmatchcase ?h ''a.b c-d'' ''a.b c-d'' = Inr True" by blast
  from t p have "fnmatchcase ?h ''axb c-d'' ''a.b c-d'' = Inr (''axb c-d'' = ''a.b c-d'')" by blast
  then have 2: "fnmatchcase ?h ''axb c-d'' ''a.b c-d'' = Inr False" by simp
  from t q have 3: "escape_char ?h (CHR ''a'') = ''a''" by blast
  from 1 2 3 show ?thesis by blast
qed

subsection \<open>The groups found by the scan\<close>

lemma scan_close_before:
  "j \<le> k \<Longrightarrow> k < scan_close pat j \<Longrightarrow> pat ! k \<noteq> CHR '']''"
proof (induction pat j rule: scan_close.induct)
  case (1 pat j)
  show ?case
  proof (cases "j < length pat \<and> pat ! j \<noteq> CHR '']''")
    case True
    then have eq: "scan_close pat j = scan_close pat (j + 1)"
      by (intro scan_close_step) simp_all
    show ?thesis
    proof (cases "k = j")
      case True
      with \<open>j < length pat \<and> pat ! j \<noteq> CHR '']''\<close> show ?thesis by simp
    next
      case False
      with "1.prems" have "j + 1 \<le> k" by simp
      moreover from "1.prems" eq have "k < scan_close pat (j + 1)" by simp
      ultimately show ?thesis using "1.IH" [OF True] by blast
    qed
  next
    case False
    then have "scan_close pat j = j" by (subst scan_close.simps) auto
    with "1.prems" show ?thesis by simp
  qed
qed

lemma slice_no_close:
  assumes "b \<le> length pat" and "\<And>k. a \<le> k \<Longrightarrow> k < b \<Longrightarrow> pat ! k \<noteq> CHR '']''"
  shows "CHR '']'' \<notin> set (slice pat a b)"
proof
  assume "CHR '']'' \<in> set (slice pat a b)"
  then obtain m where m: "m < length (slice pat a b)" and e: "slice pat a b ! m = CHR '']''"
    by (auto simp: in_set_conv_nth)
  from m assms(1) have mb: "m < b - a" by (simp add: slice_def)
  with assms(1) have "slice pat a b ! m = pat ! (a + m)" by (simp add: slice_def)
  moreover from mb have "a \<le> a + m" "a + m < b" by simp_all
  ultimately show False using assms(2) e by metis
qed

lemma slice_after_scan:
  assumes "scan_close pat a \<le> length pat" and "a \<le> b"
  shows "CHR '']'' \<notin> set (slice pat b (scan_close pat a))"
proof (rule slice_no_close [OF assms(1)])
  fix m assume "b \<le> m" and "m < scan_close pat a"
  with assms(2) show "pat ! m \<noteq> CHR '']''"
    using scan_close_before [of a m pat] by simp
qed

text \<open>The content of every group that the scan closes satisfies \<open>group_ok\<close>.\<close>

lemma bracket_group_ok:
  assumes j: "bracket_end pat k < length pat"
  shows "group_ok (slice pat k (bracket_end pat k))"
proof -
  let ?j = "bracket_end pat k"
  from bracket_end_gt [OF j] have kj: "k < ?j" .
  with j have kn: "k < length pat" by simp
  from slice_nonempty [OF kj j] have s0: "slice pat k ?j = pat ! k # slice pat (k + 1) ?j" .
  have jl: "?j \<le> length pat" using j by simp
  show ?thesis
  proof (cases "pat ! k = CHR ''!''")
    case bang: True
    show ?thesis
    proof (cases "k + 1 < length pat \<and> pat ! (k + 1) = CHR '']''")
      case True
      with bang kn have be: "?j = scan_close pat (k + 1 + 1)"
        by (simp add: bracket_end_def Let_def)
      then have "k + 1 + 1 \<le> ?j" using scan_close_ge [of "k + 1 + 1" pat] by simp
      then have k1: "k + 1 < ?j" by simp
      from slice_nonempty [OF k1 j]
      have s1: "slice pat (k + 1) ?j = pat ! (k + 1) # slice pat (k + 1 + 1) ?j" .
      have "CHR '']'' \<notin> set (slice pat (k + 1 + 1) ?j)"
        using slice_after_scan [of pat "k + 1 + 1" "k + 1 + 1"] jl unfolding be by simp
      with bang show ?thesis unfolding s0 s1 group_ok_def by simp
    next
      case False
      with bang kn have be: "?j = scan_close pat (k + 1)"
        by (auto simp: bracket_end_def Let_def)
      have k1n: "k + 1 < length pat"
        using j scan_close_ge [of "k + 1" pat] by (simp add: be)
      with False have nc: "pat ! (k + 1) \<noteq> CHR '']''" by simp
      from scan_close_step [OF k1n nc] scan_close_ge [of "k + 1 + 1" pat]
      have k1: "k + 1 < ?j" by (simp add: be)
      from slice_nonempty [OF k1 j]
      have s1: "slice pat (k + 1) ?j = pat ! (k + 1) # slice pat (k + 1 + 1) ?j" .
      have "CHR '']'' \<notin> set (slice pat (k + 1 + 1) ?j)"
        using slice_after_scan [of pat "k + 1" "k + 1 + 1"] jl unfolding be by simp
      with bang show ?thesis unfolding s0 s1 group_ok_def by simp
    qed
  next
    case nb: False
    have "CHR '']'' \<notin> set (slice pat (k + 1) ?j)"
    proof (cases "pat ! k = CHR '']''")
      case True
      with nb kn have be: "?j = scan_close pat (k + 1)"
        by (simp add: bracket_end_def Let_def)
      show ?thesis
        using slice_after_scan [of pat "k + 1" "k + 1"] jl unfolding be by simp
    next
      case False
      with nb kn have be: "?j = scan_close pat k"
        by (simp add: bracket_end_def Let_def)
      show ?thesis
        using slice_after_scan [of pat k "k + 1"] jl unfolding be by simp
    qed
    with nb show ?thesis unfolding s0 group_ok_def by simp
  qed
qed

subsection \<open>The engine accepts the translated expression\<close>

lemma parse_set_total:
  assumes "\<forall>t\<in>set ts. tok_lit t \<noteq> None"
    and "Raw (CHR '']'') \<notin> set (if first then tl ts else ts)"
    and "first \<longrightarrow> ts \<noteq> []"
    and "\<not> strict \<or> Raw (CHR ''-'') \<notin> set ts"
  shows "\<exists>xs. parse_set strict first (ts @ Raw (CHR '']'') # rest) = Some (xs, rest)"
  using assms
proof (induction "length ts" arbitrary: ts first rule: less_induct)
  case less
  show ?case
  proof (cases ts)
    case Nil
    with less.prems(3) show ?thesis by (simp add: parse_set_close)
  next
    case (Cons t ts1)
    from less.prems(1) Cons obtain lo where lo: "tok_lit t = Some lo" by auto
    from less.prems(2) Cons have fst: "first \<or> t \<noteq> Raw (CHR '']'')" by (cases first) auto
    from less.prems(2) Cons have nc: "Raw (CHR '']'') \<notin> set ts1" by (cases first) auto
    show ?thesis
    proof (cases ts1)
      case Nil
      have "parse_set strict first (t # Raw (CHR '']'') # rest) =
            add_citem (CChar lo) (parse_set strict False (Raw (CHR '']'') # rest))"
        by (rule parse_set_single [OF lo fst]) simp
      then show ?thesis by (simp add: Cons Nil parse_set_close add_citem_def)
    next
      case c1: (Cons t1 ts2)
      show ?thesis
      proof (cases "t1 = Raw (CHR ''-'')")
        case False
        have "\<exists>xs. parse_set strict False (ts1 @ Raw (CHR '']'') # rest) = Some (xs, rest)"
          using less.prems(1,4) nc Cons by (intro less.hyps) auto
        then obtain xs where
          xs: "parse_set strict False (t1 # ts2 @ Raw (CHR '']'') # rest) = Some (xs, rest)"
          by (auto simp: c1)
        have "parse_set strict first (t # t1 # ts2 @ Raw (CHR '']'') # rest) =
              add_citem (CChar lo) (parse_set strict False (t1 # ts2 @ Raw (CHR '']'') # rest))"
          by (rule parse_set_single [OF lo fst False])
        with xs show ?thesis by (simp add: Cons c1 add_citem_def)
      next
        case dash: True
        with less.prems(4) Cons c1 have ns: "\<not> strict" by auto
        show ?thesis
        proof (cases ts2)
          case Nil
          from parse_set_dash_close [OF lo fst, of strict rest] show ?thesis
            by (simp add: Cons c1 dash Nil)
        next
          case c2: (Cons t2 ts3)
          from nc c1 c2 have t2: "t2 \<noteq> Raw (CHR '']'')" and nc3: "Raw (CHR '']'') \<notin> set ts3"
            by auto
          from less.prems(1) Cons c1 c2 obtain hi where hi: "tok_lit t2 = Some hi" by auto
          have "\<exists>xs. parse_set strict False (ts3 @ Raw (CHR '']'') # rest) = Some (xs, rest)"
            using less.prems(1) nc3 ns Cons c1 c2 by (intro less.hyps) auto
          then obtain xs where
            xs: "parse_set strict False (ts3 @ Raw (CHR '']'') # rest) = Some (xs, rest)"
            by blast
          from parse_set_range [OF lo fst t2 hi, of strict "ts3 @ Raw (CHR '']'') # rest"] ns xs
          show ?thesis by (simp add: Cons c1 dash c2 add_citem_def)
        qed
      qed
    qed
  qed
qed

lemma tok_lit_caret: "tok_lit (Esc (CHR ''^'')) = Some (CHR ''^'')"
  by (simp add: is_alnum_def)

lemma tokc_dash: "Raw (CHR ''-'') \<in> set (map tokc s) \<Longrightarrow> CHR ''-'' \<in> set s"
  by (auto simp: Raw_eq_tokc)

lemma tokc_close: "Raw (CHR '']'') \<in> set (map tokc s) \<Longrightarrow> CHR '']'' \<in> set s"
  by (auto simp: Raw_eq_tokc)

lemma parse_class_total:
  assumes "group_ok raw" and "\<not> strict \<or> CHR ''-'' \<notin> set raw"
  shows "\<exists>a. parse_class strict (stuff_toks raw @ Raw (CHR '']'') # rest) = Some (a, rest)"
proof -
  from assms(1) obtain c cs where raw: "raw = c # cs" by (cases raw) (auto simp: group_ok_def)
  have lit: "\<forall>t\<in>set (map tokc cs). tok_lit t \<noteq> None" by (simp add: tok_lit_tokc)
  from assms(2) raw have dash: "\<not> strict \<or> Raw (CHR ''-'') \<notin> set (map tokc cs)"
    using tokc_dash [of cs] by auto
  show ?thesis
  proof (cases "c = CHR ''!''")
    case True
    with assms(1) raw have ne: "cs \<noteq> []" and nc: "CHR '']'' \<notin> set (tl cs)"
      by (simp_all add: group_ok_def)
    have "\<exists>xs. parse_set strict True (map tokc cs @ Raw (CHR '']'') # rest) = Some (xs, rest)"
    proof (rule parse_set_total [OF lit _ _ dash])
      show "Raw (CHR '']'') \<notin> set (if True then tl (map tokc cs) else map tokc cs)"
        using nc tokc_close [of "tl cs"] by (auto simp: map_tl)
      show "True \<longrightarrow> map tokc cs \<noteq> []" using ne by simp
    qed
    then obtain xs where
      "parse_set strict True (map tokc cs @ Raw (CHR '']'') # rest) = Some (xs, rest)" by blast
    with True show ?thesis by (simp add: raw stuff_toks_def parse_class_def)
  next
    case nb: False
    with assms(1) raw have nc: "CHR '']'' \<notin> set cs" by (simp add: group_ok_def)
    then have nct: "Raw (CHR '']'') \<notin> set (map tokc cs)" using tokc_close [of cs] by blast
    show ?thesis
    proof (cases "c = CHR ''^''")
      case True
      have "\<exists>xs. parse_set strict True
               ((Esc (CHR ''^'') # map tokc cs) @ Raw (CHR '']'') # rest) = Some (xs, rest)"
      proof (rule parse_set_total)
        show "\<forall>t\<in>set (Esc (CHR ''^'') # map tokc cs). tok_lit t \<noteq> None"
          using lit by (simp add: tok_lit_caret del: tok_lit.simps)
        show "Raw (CHR '']'') \<notin> set (if True then tl (Esc (CHR ''^'') # map tokc cs)
                 else Esc (CHR ''^'') # map tokc cs)"
          using nct by simp
        show "True \<longrightarrow> Esc (CHR ''^'') # map tokc cs \<noteq> []" by simp
        show "\<not> strict \<or> Raw (CHR ''-'') \<notin> set (Esc (CHR ''^'') # map tokc cs)"
          using dash by auto
      qed
      then obtain xs where
        "parse_set strict True (Esc (CHR ''^'') # map tokc cs @ Raw (CHR '']'') # rest) =
           Some (xs, rest)" by auto
      with True show ?thesis by (simp add: raw stuff_toks_def parse_class_def)
    next
      case False
      have ne: "tokc c \<noteq> Raw (CHR ''^'')" using False by (simp add: tokc_eq_Raw)
      have "\<exists>xs. parse_set strict True (map tokc (c # cs) @ Raw (CHR '']'') # rest) =
               Some (xs, rest)"
      proof (rule parse_set_total)
        show "\<forall>t\<in>set (map tokc (c # cs)). tok_lit t \<noteq> None" by (simp add: tok_lit_tokc)
        show "Raw (CHR '']'') \<notin> set (if True then tl (map tokc (c # cs)) else map tokc (c # cs))"
          using nct by simp
        show "True \<longrightarrow> map tokc (c # cs) \<noteq> []" by simp
        show "\<not> strict \<or> Raw (CHR ''-'') \<notin> set (map tokc (c # cs))"
          using assms(2) raw tokc_dash [of "c # cs"] by blast
      qed
      then obtain xs where
        "parse_set strict True (tokc c # map tokc cs @ Raw (CHR '']'') # rest) = Some (xs, rest)"
        by auto
      with nb False ne show ?thesis by (simp add: raw stuff_toks_def parse_class_def)
    qed
  qed
qed


lemma accepted_Nil: "accepted strict []"
  by (simp add: accepted_def)

lemma accepted_parses: "accepted strict ts \<Longrightarrow> parse_items strict True ts \<noteq> None"
  unfolding accepted_def using parse_items_Nil [of strict True]
  by (metis append_Nil2 option.distinct(1))

lemma accepted_append:
  assumes "accepted strict ts" and "chunk \<noteq> []" and "hd chunk \<noteq> Raw (CHR ''*'')"
    and "\<And>rest. rest = [] \<or> hd rest \<noteq> Raw (CHR ''*'') \<Longrightarrow>
           parse_items strict True rest \<noteq> None \<Longrightarrow>
           parse_items strict True (chunk @ rest) \<noteq> None"
  shows "accepted strict (ts @ chunk)"
  unfolding accepted_def
proof (intro allI impI)
  fix rest
  assume ok: "rest = [] \<or> hd rest \<noteq> Raw (CHR ''*'')"
    and p: "parse_items strict True rest \<noteq> None"
  from assms(4) [OF ok p] have "parse_items strict True (chunk @ rest) \<noteq> None" .
  moreover from assms(2,3) have "chunk @ rest = [] \<or> hd (chunk @ rest) \<noteq> Raw (CHR ''*'')"
    by simp
  ultimately have "parse_items strict True (ts @ chunk @ rest) \<noteq> None"
    using assms(1) unfolding accepted_def by blast
  then show "parse_items strict True ((ts @ chunk) @ rest) \<noteq> None" by simp
qed

lemma parse_items_item:
  assumes "parse_item strict dotall (t # ts) = Some (it, r)"
    and "parse_items strict dotall r \<noteq> None"
  shows "parse_items strict dotall (t # ts) \<noteq> None"
  using assms by (subst parse_items_Cons) auto

lemma chunk_star:
  assumes "parse_items strict True rest \<noteq> None"
  shows "parse_items strict True ([Raw (CHR ''.''), Raw (CHR ''*'')] @ rest) \<noteq> None"
proof -
  have "parse_item strict True (Raw (CHR ''.'') # Raw (CHR ''*'') # rest) =
        Some (Star (Dot True), rest)"
    by (simp add: parse_item_def quant_def)
  from parse_items_item [OF this assms] show ?thesis by simp
qed

lemma chunk_dot:
  assumes "rest = [] \<or> hd rest \<noteq> Raw (CHR ''*'')" and "parse_items strict True rest \<noteq> None"
  shows "parse_items strict True ([Raw (CHR ''.'')] @ rest) \<noteq> None"
proof -
  have "parse_item strict True (Raw (CHR ''.'') # rest) = Some (One (Dot True), rest)"
    by (simp add: parse_item_def quant_one [OF assms(1)])
  from parse_items_item [OF this assms(2)] show ?thesis by simp
qed

lemma chunk_open:
  assumes "rest = [] \<or> hd rest \<noteq> Raw (CHR ''*'')" and "parse_items strict True rest \<noteq> None"
  shows "parse_items strict True ([Esc (CHR ''['')] @ rest) \<noteq> None"
proof -
  have "parse_item strict True (Esc (CHR ''['') # rest) = Some (One (Lit (CHR ''['')), rest)"
    by (simp add: parse_item_def quant_one [OF assms(1)] is_alnum_def)
  from parse_items_item [OF this assms(2)] show ?thesis by simp
qed

lemma chunk_escaped:
  assumes "rest = [] \<or> hd rest \<noteq> Raw (CHR ''*'')" and "parse_items strict True rest \<noteq> None"
  shows "parse_items strict True ([esc_tok c] @ rest) \<noteq> None"
proof -
  note parse_item_esc_tok [OF assms(1), of strict True c]
  from parse_items_item [OF this assms(2)] show ?thesis by simp
qed

lemma chunk_class:
  assumes "group_ok raw" and "\<not> strict \<or> CHR ''-'' \<notin> set raw"
    and "rest = [] \<or> hd rest \<noteq> Raw (CHR ''*'')" and "parse_items strict True rest \<noteq> None"
  shows "parse_items strict True ((Raw (CHR ''['') # stuff_toks raw @ [Raw (CHR '']'')]) @ rest)
         \<noteq> None"
proof -
  from parse_class_total [OF assms(1,2), of rest] obtain a where
    a: "parse_class strict (stuff_toks raw @ Raw (CHR '']'') # rest) = Some (a, rest)" by blast
  have "parse_item strict True (Raw (CHR ''['') # stuff_toks raw @ Raw (CHR '']'') # rest) =
        Some (One a, rest)"
    by (simp add: parse_item_def a quant_one [OF assms(3)])
  from parse_items_item [OF this assms(4)] show ?thesis by simp
qed

lemma slice_subset: "set (slice pat a b) \<subseteq> set pat"
  unfolding slice_def using set_take_subset set_drop_subset by fast

text \<open>
  The engine accepts what the loop builds, unless it is strict about ranges and the
  pattern has a \<open>-\<close>.
\<close>

lemma translate_loop_accepted:
  "\<not> strict \<or> CHR ''-'' \<notin> set pat \<Longrightarrow> lex res = Some tr \<Longrightarrow> accepted strict tr \<Longrightarrow>
   translate_loop h pat i res = Inr out \<Longrightarrow> \<exists>ts. lex out = Some ts \<and> accepted strict ts"
proof (induction h pat i res arbitrary: tr rule: translate_loop.induct)
  case (1 h pat i res)
  note dash = "1.prems"(1) and res = "1.prems"(2) and acc = "1.prems"(3) and out = "1.prems"(4)
  show ?case
  proof (cases "i < length pat")
    case False
    with out have "out = res" by (simp add: translate_loop_end)
    with res acc show ?thesis by blast
  next
    case lt: True
    show ?thesis
    proof (cases "pat ! i = CHR ''*''")
      case True
      have l: "lex (res @ ''.*'') = Some (tr @ [Raw (CHR ''.''), Raw (CHR ''*'')])"
        by (rule lex_append [OF res]) simp
      have a: "accepted strict (tr @ [Raw (CHR ''.''), Raw (CHR ''*'')])"
        by (rule accepted_append [OF acc]) (simp_all add: chunk_star del: append.simps)
      from out have "translate_loop h pat (i + 1) (res @ ''.*'') = Inr out"
        by (simp only: translate_loop_star [OF lt True])
      from "1.IH"(1) [OF lt True dash l a this] show ?thesis .
    next
      case ns: False
      show ?thesis
      proof (cases "pat ! i = CHR ''?''")
        case True
        have l: "lex (res @ ''.'') = Some (tr @ [Raw (CHR ''.'')])"
          by (rule lex_append [OF res]) simp
        have a: "accepted strict (tr @ [Raw (CHR ''.'')])"
          by (rule accepted_append [OF acc]) (simp_all add: chunk_dot del: append.simps)
        from out have "translate_loop h pat (i + 1) (res @ ''.'') = Inr out"
          by (simp only: translate_loop_question [OF lt True])
        from "1.IH"(2) [OF lt ns True dash l a this] show ?thesis .
      next
        case nq: False
        show ?thesis
        proof (cases "pat ! i = CHR ''[''")
          case False
          have "lex (escape_char h (pat ! i) @ []) = Some (esc_tok (pat ! i) # [])"
            by (rule lex_escape_char) simp
          then have "lex (escape_char h (pat ! i)) = Some [esc_tok (pat ! i)]" by simp
          from lex_append [OF res this]
          have l: "lex (res @ escape_char h (pat ! i)) = Some (tr @ [esc_tok (pat ! i)])" .
          have a: "accepted strict (tr @ [esc_tok (pat ! i)])"
            by (rule accepted_append [OF acc])
               (simp_all add: chunk_escaped esc_tok_not_star del: append.simps)
          from out have "translate_loop h pat (i + 1) (res @ escape_char h (pat ! i)) = Inr out"
            by (simp only: translate_loop_literal [OF lt ns nq False])
          from "1.IH"(5) [OF lt ns nq False dash l a this] show ?thesis .
        next
          case br: True
          show ?thesis
          proof (cases "length pat \<le> bracket_end pat (i + 1)")
            case True
            have l: "lex (res @ [BSL, CHR ''['']) = Some (tr @ [Esc (CHR ''['')])"
              by (rule lex_append [OF res]) simp
            have a: "accepted strict (tr @ [Esc (CHR ''['')])"
              by (rule accepted_append [OF acc]) (simp_all add: chunk_open del: append.simps)
            from out have "translate_loop h pat (i + 1) (res @ [BSL, CHR ''['']) = Inr out"
              by (simp only: translate_loop_open [OF lt br True])
            from "1.IH"(3) [OF lt ns nq br True dash l a this] show ?thesis .
          next
            case closed: False
            let ?j = "bracket_end pat (i + 1)"
            let ?raw = "slice pat (i + 1) ?j"
            from closed have j: "?j < length pat" by simp
            have g: "group_ok ?raw" by (rule bracket_group_ok [OF j])
            have d: "\<not> strict \<or> CHR ''-'' \<notin> set ?raw"
            proof (cases strict)
              case False
              then show ?thesis by simp
            next
              case True
              with dash have "CHR ''-'' \<notin> set pat" by simp
              from contra_subsetD [OF slice_subset this] show ?thesis by simp
            qed
            from bracket_end_gt [OF j] have "i + 1 < ?j" .
            from slice_nonempty [OF this j]
            obtain st where st: "bracket_stuff ?raw = Inr st"
              by (simp add: bracket_stuff_Cons)
            have "lex (st @ '']'') = Some (stuff_toks ?raw @ [Raw (CHR '']'')])"
              by (rule lex_bracket_stuff [OF st]) simp
            then have "lex (''['' @ st @ '']'') =
                Some (Raw (CHR ''['') # stuff_toks ?raw @ [Raw (CHR '']'')])"
              using lex_raw [of "CHR ''[''" "st @ '']''"] by simp
            from lex_append [OF res this]
            have l: "lex (res @ ''['' @ st @ '']'') =
                Some (tr @ Raw (CHR ''['') # stuff_toks ?raw @ [Raw (CHR '']'')])" .
            have a: "accepted strict (tr @ Raw (CHR ''['') # stuff_toks ?raw @ [Raw (CHR '']'')])"
            proof (rule accepted_append [OF acc])
              show "Raw (CHR ''['') # stuff_toks ?raw @ [Raw (CHR '']'')] \<noteq> []" by simp
              show "hd (Raw (CHR ''['') # stuff_toks ?raw @ [Raw (CHR '']'')]) \<noteq> Raw (CHR ''*'')"
                by simp
              fix rest :: "tok list"
              assume "rest = [] \<or> hd rest \<noteq> Raw (CHR ''*'')"
                and "parse_items strict True rest \<noteq> None"
              then show "parse_items strict True
                  ((Raw (CHR ''['') # stuff_toks ?raw @ [Raw (CHR '']'')]) @ rest) \<noteq> None"
                by (rule chunk_class [OF g d])
            qed
            from out have "translate_loop h pat (?j + 1) (res @ ''['' @ st @ '']'') = Inr out"
              by (simp only: translate_loop_closed [OF lt br refl j st])
            from "1.IH"(4) [OF lt ns nq br closed st dash l a this] show ?thesis .
          qed
        qed
      qed
    qed
  qed
qed

lemma compile_pattern_parse:
  "\<exists>res toks. translate_loop h pat 0 [] = Inr res \<and> lex res = Some toks \<and>
     compile_pattern h pat =
       (case parse_items (strict_ranges h) True toks of
          None \<Rightarrow> Inl ReError
        | Some items \<Rightarrow> Inr (items @ [EndAbs]))"
proof -
  obtain res where res: "translate_loop h pat 0 [] = Inr res"
    using translate_loop_total by blast
  have "lex [] = Some []" by simp
  from translate_loop_lex [OF this res] obtain toks where toks: "lex res = Some toks" by blast
  have "lex [BSL, CHR ''Z''] = Some [ENDZ]" by simp
  from lex_append [OF toks this]
  have lx: "lex (res @ [BSL, CHR ''Z'']) = Some (toks @ [ENDZ])" .
  from res have "translate h pat = Inr (''(?ms)'' @ res @ [BSL, CHR ''Z''])"
    by (simp add: translate_def)
  with re_compile_translated [OF lx, of "strict_ranges h"]
  have "compile_pattern h pat =
       (case parse_items (strict_ranges h) True toks of
          None \<Rightarrow> Inl ReError
        | Some items \<Rightarrow> Inr (items @ [EndAbs]))"
    by (cases "parse_items (strict_ranges h) True toks")
       (simp_all add: compile_pattern_def parse_items_endz)
  with res toks show ?thesis by blast
qed

lemma compile_pattern_accepts:
  assumes "\<not> strict_ranges h \<or> CHR ''-'' \<notin> set pat"
  shows "\<exists>items. compile_pattern h pat = Inr (items @ [EndAbs])"
proof -
  obtain res where res: "translate_loop h pat 0 [] = Inr res"
    using translate_loop_total by blast
  have "lex [] = Some []" by simp
  from translate_loop_accepted [OF assms this accepted_Nil res]
  obtain toks where toks: "lex res = Some toks" and acc: "accepted (strict_ranges h) toks"
    by blast
  from accepted_parses [OF acc] obtain items where
    items: "parse_items (strict_ranges h) True toks = Some items" by auto
  have "lex [BSL, CHR ''Z''] = Some [ENDZ]" by simp
  from lex_append [OF toks this]
  have lx: "lex (res @ [BSL, CHR ''Z'']) = Some (toks @ [ENDZ])" .
  from res have "translate h pat = Inr (''(?ms)'' @ res @ [BSL, CHR ''Z''])"
    by (simp add: translate_def)
  with re_compile_translated [OF lx, of "strict_ranges h"] items
  have "compile_pattern h pat = Inr (items @ [EndAbs])"
    by (simp add: compile_pattern_def parse_items_endz)
  then show ?thesis by blast
qed


section \<open>Properties of the matching functions\<close>

lemma fnmatchcase_parse:
  "\<exists>res toks. translate_loop h pat 0 [] = Inr res \<and> lex res = Some toks \<and>
     fnmatchcase h name pat =
       (case parse_items (strict_ranges h) True toks of
          None \<Rightarrow> Inl ReError
        | Some items \<Rightarrow> Inr (fullmatch items name))"
proof -
  from compile_pattern_parse [of h pat] obtain res toks where
    res: "translate_loop h pat 0 [] = Inr res" and toks: "lex res = Some toks" and
    c: "compile_pattern h pat =
       (case parse_items (strict_ranges h) True toks of
          None \<Rightarrow> Inl ReError
        | Some items \<Rightarrow> Inr (items @ [EndAbs]))" by blast
  have "fnmatchcase h name pat =
       (case parse_items (strict_ranges h) True toks of
          None \<Rightarrow> Inl ReError
        | Some items \<Rightarrow> Inr (fullmatch items name))"
    by (cases "parse_items (strict_ranges h) True toks")
       (simp_all add: fnmatchcase_def c re_match_endabs)
  with res toks show ?thesis by blast
qed

lemma fnmatchcase_returns:
  assumes "\<not> strict_ranges h \<or> CHR ''-'' \<notin> set pat"
  shows "\<exists>b. fnmatchcase h name pat = Inr b"
  using compile_pattern_accepts [OF assms] by (auto simp: fnmatchcase_def)

lemma compile_empty: "compile_pattern h [] = Inr [EndAbs]"
  by code_simp

text \<open>
  Claim C5.  \<open>fnmatchcase\<close> answers with the whole-string match of the expression
  that the engine compiles from the loop's result: the \<open>match\<close> of the compiled
  pattern starts at the start of the name, and the \<open>\Z\<close> that \<open>translate\<close> appends
  lets it end only at the absolute end.  It is true exactly when that expression
  matches the whole name.  The answer is a boolean whenever the engine does not reject
  reversed ranges or the pattern has no \<open>-\<close>.  The empty pattern matches the empty
  name only; a name with more characters before, after, or a newline after what the
  pattern matches is not matched.
\<close>

theorem fnmatchcase_whole_string:
  "(\<exists>res toks. translate_loop h pat 0 [] = Inr res \<and> lex res = Some toks \<and>
       fnmatchcase h name pat =
         (case parse_items (strict_ranges h) True toks of
            None \<Rightarrow> Inl ReError
          | Some items \<Rightarrow> Inr (fullmatch items name)))
   \<and> (\<not> strict_ranges h \<or> CHR ''-'' \<notin> set pat \<longrightarrow> (\<exists>b. fnmatchcase h name pat = Inr b))
   \<and> fnmatchcase h [] [] = Inr True
   \<and> fnmatchcase h ''x'' [] = Inr False
   \<and> fnmatchcase h name [] = Inr (name = [])
   \<and> fnmatchcase h ''ab'' ''a'' = Inr False
   \<and> fnmatchcase h ''ba'' ''a'' = Inr False
   \<and> fnmatchcase h (''a'' @ [NEWLINE]) ''a'' = Inr False"
proof -
  have b: "\<not> strict_ranges h \<or> CHR ''-'' \<notin> set pat \<longrightarrow> (\<exists>b. fnmatchcase h name pat = Inr b)"
    using fnmatchcase_returns [of h pat name] by blast
  have e: "\<And>n. fnmatchcase h n [] = Inr (n = [])"
    by (simp add: fnmatchcase_def compile_empty)
  have f: "fnmatchcase h ''ab'' ''a'' = Inr False" "fnmatchcase h ''ba'' ''a'' = Inr False"
    "fnmatchcase h (''a'' @ [NEWLINE]) ''a'' = Inr False"
    by code_simp+
  from fnmatchcase_parse [of h pat name] b e f show ?thesis by simp
qed

theorem fnmatchcase_whole_string_witness:
  "\<exists>b. fnmatchcase \<lparr>uefi_micropython = False, os_path = Posixpath, strict_ranges = False\<rparr>
          ''a'' ''[z-a]'' = Inr b"
proof -
  let ?h = "\<lparr>uefi_micropython = False, os_path = Posixpath, strict_ranges = False\<rparr>"
  have "\<not> strict_ranges ?h \<or> CHR ''-'' \<notin> set ''[z-a]''" by simp
  with fnmatchcase_whole_string [of ?h "''[z-a]''" "''a''"] show ?thesis by blast
qed










text \<open>
  An engine that rejects reversed ranges rejects the expression for \<open>[z-a]\<close>:
  \<open>fnmatchcase\<close> and \<open>filter\<close> then raise the engine's error.
\<close>

lemma reversed_range_rejected:
  "strict_ranges h \<Longrightarrow> fnmatchcase h ''a'' ''[z-a]'' = Inl ReError"
  "strict_ranges h \<Longrightarrow> os_path h = Posixpath \<Longrightarrow> filter_names h [''a''] ''[z-a]'' = Inl ReError"
proof -
  assume s: "strict_ranges h"
  have t: "translate h ''[z-a]'' = Inr (''(?ms)[z-a]'' @ [BSL, CHR ''Z''])" by code_simp
  have "re_compile True (''(?ms)[z-a]'' @ [BSL, CHR ''Z'']) = Inl ReError" by code_simp
  with s t have c: "compile_pattern h ''[z-a]'' = Inl ReError"
    by (simp add: compile_pattern_def)
  then show "fnmatchcase h ''a'' ''[z-a]'' = Inl ReError" by (simp add: fnmatchcase_def)
  assume "os_path h = Posixpath"
  with c show "filter_names h [''a''] ''[z-a]'' = Inl ReError" by (simp add: filter_names_def)
qed

subsection \<open>Case normalisation\<close>

lemma fnmatchcase_plain:
  "set P \<inter> wildcards = {} \<Longrightarrow> fnmatchcase h name P = Inr (name = P)"
  by (simp add: fnmatchcase_def compile_plain re_match_endabs fullmatch_literals)

text \<open>
  Claim C8, corrected.  That \<open>fnmatch\<close> and \<open>fnmatchcase\<close> diverge exactly on
  differing-case otherwise-equal strings fails under a lowercasing \<open>normcase\<close>: they
  diverge on \<open>Ab\<close> against \<open>a*\<close>, which are not equal up to case, and they agree
  on \<open>[A]\<close> against \<open>[a]\<close>, which are.
\<close>

theorem fnmatch_normcase_counterexample:
  "fnmatch \<lparr>uefi_micropython = False, os_path = Otherpath (map lower_char), strict_ranges = True\<rparr>
      ''Ab'' ''a*'' = Inr True
   \<and> fnmatchcase \<lparr>uefi_micropython = False, os_path = Otherpath (map lower_char), strict_ranges = True\<rparr>
      ''Ab'' ''a*'' = Inr False
   \<and> map lower_char ''Ab'' \<noteq> map lower_char ''a*''
   \<and> fnmatch \<lparr>uefi_micropython = False, os_path = Otherpath (map lower_char), strict_ranges = True\<rparr>
      ''[A]'' ''[a]'' = Inr False
   \<and> fnmatchcase \<lparr>uefi_micropython = False, os_path = Otherpath (map lower_char), strict_ranges = True\<rparr>
      ''[A]'' ''[a]'' = Inr False
   \<and> map lower_char ''[A]'' = map lower_char ''[a]''
   \<and> ''[A]'' \<noteq> ''[a]''"
proof -
  let ?hw = "\<lparr>uefi_micropython = False, os_path = Otherpath (map lower_char), strict_ranges = True\<rparr>"
  have l1: "map lower_char ''Ab'' = ''ab''" "map lower_char ''a*'' = ''a*''"
    "map lower_char ''[A]'' = ''[a]''" "map lower_char ''[a]'' = ''[a]''"
    by code_simp+
  have c1: "fnmatchcase ?hw ''ab'' ''a*'' = Inr True" by code_simp
  have c2: "fnmatchcase ?hw ''Ab'' ''a*'' = Inr False" by code_simp
  have c3: "fnmatchcase ?hw ''[a]'' ''[a]'' = Inr False" by code_simp
  have c4: "fnmatchcase ?hw ''[A]'' ''[a]'' = Inr False" by code_simp
  have f1: "fnmatch ?hw ''Ab'' ''a*'' = fnmatchcase ?hw (map lower_char ''Ab'') (map lower_char ''a*'')"
    by (simp only: fnmatch_def host.simps normcase.simps)
  have f2: "fnmatch ?hw ''[A]'' ''[a]'' =
      fnmatchcase ?hw (map lower_char ''[A]'') (map lower_char ''[a]'')"
    by (simp only: fnmatch_def host.simps normcase.simps)
  have 1: "fnmatch ?hw ''Ab'' ''a*'' = Inr True" unfolding f1 l1 by (rule c1)
  have 2: "fnmatch ?hw ''[A]'' ''[a]'' = Inr False" unfolding f2 l1 by (rule c3)
  have 3: "map lower_char ''Ab'' \<noteq> map lower_char ''a*''" unfolding l1 by simp
  have 4: "map lower_char ''[A]'' = map lower_char ''[a]''" unfolding l1 by simp
  have 5: "''[A]'' \<noteq> ''[a]''" by simp
  from 1 c2 3 2 c4 4 5 show ?thesis by blast
qed

text \<open>
  Claim C8 as amended.  \<open>fnmatch\<close> normalises the case of both arguments with the
  host's \<open>normcase\<close> and delegates to \<open>fnmatchcase\<close>.  The two coincide whenever
  \<open>normcase\<close> leaves the name and the pattern unchanged, as it always does under
  \<open>posixpath\<close>.  For a pattern that has none of \<open>*\<close>, \<open>?\<close>, \<open>[\<close> before and
  after normalisation, they diverge exactly when the name and the pattern are equal after
  normalisation and differ before it; \<open>README\<close> against \<open>readme\<close> under a
  lowercasing \<open>normcase\<close> is such a case.
\<close>

theorem fnmatch_normcase:
  "fnmatch h name pat = fnmatchcase h (normcase (os_path h) name) (normcase (os_path h) pat)
   \<and> (os_path h = Posixpath \<longrightarrow> fnmatch h name pat = fnmatchcase h name pat)
   \<and> (normcase (os_path h) name = name \<and> normcase (os_path h) pat = pat \<longrightarrow>
        fnmatch h name pat = fnmatchcase h name pat)
   \<and> (set pat \<inter> {CHR ''*'', CHR ''?'', CHR ''[''} = {}
        \<and> set (normcase (os_path h) pat) \<inter> {CHR ''*'', CHR ''?'', CHR ''[''} = {} \<longrightarrow>
        (fnmatch h name pat \<noteq> fnmatchcase h name pat) =
        (normcase (os_path h) name = normcase (os_path h) pat \<and> name \<noteq> pat))
   \<and> (os_path h = Otherpath (map lower_char) \<longrightarrow>
        fnmatch h ''README'' ''readme'' = Inr True
        \<and> fnmatchcase h ''README'' ''readme'' = Inr False)"
proof -
  let ?n = "normcase (os_path h)"
  have a: "fnmatch h name pat = fnmatchcase h (?n name) (?n pat)"
    by (simp add: fnmatch_def)
  have b: "os_path h = Posixpath \<longrightarrow> fnmatch h name pat = fnmatchcase h name pat"
    by (simp add: fnmatch_def)
  have c: "?n name = name \<and> ?n pat = pat \<longrightarrow> fnmatch h name pat = fnmatchcase h name pat"
    by (simp add: fnmatch_def)
  have d: "set pat \<inter> {CHR ''*'', CHR ''?'', CHR ''[''} = {}
        \<and> set (?n pat) \<inter> {CHR ''*'', CHR ''?'', CHR ''[''} = {} \<longrightarrow>
        (fnmatch h name pat \<noteq> fnmatchcase h name pat) = (?n name = ?n pat \<and> name \<noteq> pat)"
  proof
    assume w: "set pat \<inter> {CHR ''*'', CHR ''?'', CHR ''[''} = {}
        \<and> set (?n pat) \<inter> {CHR ''*'', CHR ''?'', CHR ''[''} = {}"
    then have 1: "fnmatchcase h name pat = Inr (name = pat)"
      by (simp add: fnmatchcase_plain)
    from w have "fnmatchcase h (?n name) (?n pat) = Inr (?n name = ?n pat)"
      by (simp add: fnmatchcase_plain)
    with a have 2: "fnmatch h name pat = Inr (?n name = ?n pat)" by simp
    show "(fnmatch h name pat \<noteq> fnmatchcase h name pat) = (?n name = ?n pat \<and> name \<noteq> pat)"
      unfolding 1 2 by auto
  qed
  have low: "map lower_char ''README'' = ''readme''" "map lower_char ''readme'' = ''readme''"
    by code_simp+
  have m1: "fnmatchcase h ''readme'' ''readme'' = Inr True" by code_simp
  have m2: "fnmatchcase h ''README'' ''readme'' = Inr False" by code_simp
  have e: "os_path h = Otherpath (map lower_char) \<longrightarrow>
        fnmatch h ''README'' ''readme'' = Inr True
        \<and> fnmatchcase h ''README'' ''readme'' = Inr False"
  proof
    assume o: "os_path h = Otherpath (map lower_char)"
    have "fnmatch h ''README'' ''readme'' =
          fnmatchcase h (map lower_char ''README'') (map lower_char ''readme'')"
      by (simp only: fnmatch_def o normcase.simps)
    then have "fnmatch h ''README'' ''readme'' = Inr True"
      by (simp only: low m1)
    with m2 show "fnmatch h ''README'' ''readme'' = Inr True
        \<and> fnmatchcase h ''README'' ''readme'' = Inr False" by blast
  qed
  from a b c d e show ?thesis by blast
qed

theorem fnmatch_normcase_witness:
  "fnmatch \<lparr>uefi_micropython = False, os_path = Otherpath (map lower_char), strict_ranges = True\<rparr>
      ''README'' ''readme'' = Inr True
   \<and> fnmatchcase \<lparr>uefi_micropython = False, os_path = Otherpath (map lower_char), strict_ranges = True\<rparr>
      ''README'' ''readme'' = Inr False
   \<and> (fnmatch \<lparr>uefi_micropython = False, os_path = Otherpath (map lower_char), strict_ranges = True\<rparr>
        ''README'' ''readme'' \<noteq>
      fnmatchcase \<lparr>uefi_micropython = False, os_path = Otherpath (map lower_char), strict_ranges = True\<rparr>
        ''README'' ''readme'') =
     (map lower_char ''README'' = map lower_char ''readme'' \<and> ''README'' \<noteq> ''readme'')
   \<and> fnmatch \<lparr>uefi_micropython = False, os_path = Posixpath, strict_ranges = True\<rparr>
      ''README'' ''readme'' =
     fnmatchcase \<lparr>uefi_micropython = False, os_path = Posixpath, strict_ranges = True\<rparr>
      ''README'' ''readme''
   \<and> fnmatch \<lparr>uefi_micropython = False, os_path = Otherpath (map lower_char), strict_ranges = True\<rparr>
      ''readme'' ''readme'' =
     fnmatchcase \<lparr>uefi_micropython = False, os_path = Otherpath (map lower_char), strict_ranges = True\<rparr>
      ''readme'' ''readme''"
proof -
  let ?hw = "\<lparr>uefi_micropython = False, os_path = Otherpath (map lower_char), strict_ranges = True\<rparr>"
  let ?hp = "\<lparr>uefi_micropython = False, os_path = Posixpath, strict_ranges = True\<rparr>"
  have w: "os_path ?hw = Otherpath (map lower_char)" by simp
  have p: "os_path ?hp = Posixpath" by simp
  have low: "map lower_char ''README'' = ''readme''" "map lower_char ''readme'' = ''readme''"
    by code_simp+
  have nw: "set ''readme'' \<inter> {CHR ''*'', CHR ''?'', CHR ''[''} = {}" by simp
  have q: "set ''readme'' \<inter> {CHR ''*'', CHR ''?'', CHR ''[''} = {}
      \<and> set (normcase (os_path ?hw) ''readme'') \<inter> {CHR ''*'', CHR ''?'', CHR ''[''} = {}"
    using nw by (simp only: w normcase.simps low simp_thms)
  have id: "normcase (os_path ?hw) ''readme'' = ''readme'' \<and> normcase (os_path ?hw) ''readme'' = ''readme''"
    by (simp only: w normcase.simps low simp_thms)
  note t = fnmatch_normcase [of ?hw "''README''" "''readme''"]
  from t w have 1: "fnmatch ?hw ''README'' ''readme'' = Inr True
        \<and> fnmatchcase ?hw ''README'' ''readme'' = Inr False"
    by blast
  from t q have "(fnmatch ?hw ''README'' ''readme'' \<noteq> fnmatchcase ?hw ''README'' ''readme'') =
     (normcase (os_path ?hw) ''README'' = normcase (os_path ?hw) ''readme'' \<and> ''README'' \<noteq> ''readme'')"
    by blast
  then have 2: "(fnmatch ?hw ''README'' ''readme'' \<noteq> fnmatchcase ?hw ''README'' ''readme'') =
     (map lower_char ''README'' = map lower_char ''readme'' \<and> ''README'' \<noteq> ''readme'')"
    by (simp only: w normcase.simps)
  from fnmatch_normcase [of ?hp "''README''" "''readme''"] p
  have 3: "fnmatch ?hp ''README'' ''readme'' = fnmatchcase ?hp ''README'' ''readme''"
    by blast
  from fnmatch_normcase [of ?hw "''readme''" "''readme''"] id
  have 4: "fnmatch ?hw ''readme'' ''readme'' = fnmatchcase ?hw ''readme'' ''readme''"
    by blast
  from 1 2 3 4 show ?thesis by blast
qed

end
